theory Spec2Isabelle
  imports Main "HOL-Library.List_Lexorder"
begin

section \<open>Python strings\<close>

text \<open>
  A Python \<open>str\<close> is a sequence of Unicode code points; \<open>read_text(encoding="utf-8")\<close>
  hands the validator such a sequence.  A code point is a natural number here, and
  \<open>u\<close> writes an ASCII literal of the source as a code point list.
\<close>

type_synonym ustr = "nat list"

definition u :: "string \<Rightarrow> ustr" where
  "u s = map of_char s"

abbreviation NL :: nat where "NL \<equiv> 10"

text \<open>
  \<open>str.isspace\<close> for one code point, which is also what \<open>\s\<close> matches in a \<open>str\<close>
  pattern: CPython's \<open>Py_UNICODE_ISSPACE\<close> (U+0009..U+000D, U+001C..U+0020, U+0085,
  U+00A0, U+1680, U+2000..U+200A, U+2028, U+2029, U+202F, U+205F, U+3000).
\<close>

definition isspace :: "nat \<Rightarrow> bool" where
  "isspace c \<longleftrightarrow>
     (9 \<le> c \<and> c \<le> 13) \<or> (28 \<le> c \<and> c \<le> 32) \<or> c = 133 \<or> c = 160 \<or> c = 5760 \<or>
     (8192 \<le> c \<and> c \<le> 8202) \<or> c = 8232 \<or> c = 8233 \<or> c = 8239 \<or> c = 8287 \<or> c = 12288"

text \<open>\<open>s.strip()\<close>: leading and trailing whitespace removed.\<close>

definition strip :: "ustr \<Rightarrow> ustr" where
  "strip s = rev (dropWhile isspace (rev (dropWhile isspace s)))"

definition startswith :: "ustr \<Rightarrow> ustr \<Rightarrow> bool" where
  "startswith s p \<longleftrightarrow> take (length p) s = p"

definition endswith :: "ustr \<Rightarrow> ustr \<Rightarrow> bool" where
  "endswith s p \<longleftrightarrow> length p \<le> length s \<and> drop (length s - length p) s = p"

text \<open>The slice \<open>s[1:-1]\<close>.\<close>

definition slice_1_m1 :: "ustr \<Rightarrow> ustr" where
  "slice_1_m1 s = butlast (tl s)"

text \<open>
  \<open>str.lower\<close> on ASCII; every other code point is left alone.  The validator lowers
  only the text matched by \<open>(true|false)\<close> under \<open>re.IGNORECASE\<close>, which holds ASCII
  letters and possibly U+017F, whose lower case is itself.
\<close>

definition lower_char :: "nat \<Rightarrow> nat" where
  "lower_char c = (if 65 \<le> c \<and> c \<le> 90 then c + 32 else c)"

definition lower :: "ustr \<Rightarrow> ustr" where
  "lower s = map lower_char s"

section \<open>The fragment of Python's \<open>re\<close> that the validator uses\<close>

text \<open>
  Character classes.  \<open>Any\<close> is \<open>.\<close> under \<open>re.DOTALL\<close>, \<open>Dot\<close> is \<open>.\<close> without it
  (everything but the newline), \<open>Space\<close> is \<open>\s\<close>, \<open>Lit c\<close> a literal, \<open>LitI c\<close> a
  literal lower-case ASCII letter under \<open>re.IGNORECASE\<close>, \<open>OneOf\<close> and \<open>NoneOf\<close> the
  sets \<open>[...]\<close> and \<open>[^...]\<close>.
\<close>

datatype cls = Any | Dot | Space | Lit nat | LitI nat | OneOf "nat list" | NoneOf "nat list"

text \<open>
  Under \<open>re.IGNORECASE\<close> a \<open>str\<close> pattern letter matches the code points whose simple
  lower case is that letter, and the equivalents CPython lists beside: the long s
  (U+017F) for \<open>s\<close>, the dotless i (U+0131) for \<open>i\<close>; the dotted capital I (U+0130)
  and the Kelvin sign (U+212A) have the lower cases \<open>i\<close> and \<open>k\<close>.
\<close>

definition ci_eq :: "nat \<Rightarrow> nat \<Rightarrow> bool" where
  "ci_eq l c \<longleftrightarrow>
     c = l \<or> (65 \<le> c \<and> c \<le> 90 \<and> c + 32 = l) \<or> (l = 115 \<and> c = 383) \<or>
     (l = 105 \<and> (c = 304 \<or> c = 305)) \<or> (l = 107 \<and> c = 8490)"

fun cls_ok :: "cls \<Rightarrow> nat \<Rightarrow> bool" where
  "cls_ok Any c = True"
| "cls_ok Dot c = (c \<noteq> NL)"
| "cls_ok Space c = isspace c"
| "cls_ok (Lit l) c = (c = l)"
| "cls_ok (LitI l) c = ci_eq l c"
| "cls_ok (OneOf cs) c = (c \<in> set cs)"
| "cls_ok (NoneOf cs) c = (c \<notin> set cs)"

text \<open>
  Patterns.  Every quantifier of the source stands on a single character class:
  \<open>Star\<close> is the greedy \<open>x*\<close>, \<open>Lazy\<close> the reluctant \<open>x*?\<close>.  \<open>Bos\<close> is \<open>^\<close> without
  \<open>re.MULTILINE\<close>, \<open>Bol\<close> and \<open>Eol\<close> are \<open>^\<close> and \<open>$\<close> with it.  \<open>Grp\<close> is the capturing
  group (no pattern of the source has more than one).
\<close>

datatype re = Chr cls | Star cls | Lazy cls | Eps | Seq re re | Alt re re | Grp re
  | Bos | Bol | Eol

text \<open>
  A matcher state: the code point just before the current position (\<open>None\<close> at the
  start of the string), the text from the current position on, and the group.
\<close>

type_synonym mstate = "nat option \<times> ustr \<times> ustr option"

text \<open>
  The backtracking matcher as a list of successes: every way in which the pattern
  matches from a state, in the order in which Python's engine tries them.  The first
  element is the match Python reports.
\<close>

fun star_greedy :: "cls \<Rightarrow> nat option \<Rightarrow> ustr \<Rightarrow> ustr option \<Rightarrow> mstate list" where
  "star_greedy c p [] g = [(p, [], g)]"
| "star_greedy c p (x # xs) g =
     (if cls_ok c x then star_greedy c (Some x) xs g else []) @ [(p, x # xs, g)]"

fun star_lazy :: "cls \<Rightarrow> nat option \<Rightarrow> ustr \<Rightarrow> ustr option \<Rightarrow> mstate list" where
  "star_lazy c p [] g = [(p, [], g)]"
| "star_lazy c p (x # xs) g =
     (p, x # xs, g) # (if cls_ok c x then star_lazy c (Some x) xs g else [])"

fun run :: "re \<Rightarrow> mstate \<Rightarrow> mstate list" where
  "run (Chr c) (p, rest, g) =
     (case rest of [] \<Rightarrow> [] | x # xs \<Rightarrow> if cls_ok c x then [(Some x, xs, g)] else [])"
| "run (Star c) (p, rest, g) = star_greedy c p rest g"
| "run (Lazy c) (p, rest, g) = star_lazy c p rest g"
| "run Eps st = [st]"
| "run (Seq a b) st = concat (map (run b) (run a st))"
| "run (Alt a b) st = run a st @ run b st"
| "run (Grp r) (p, rest, g) =
     map (\<lambda>(p', rest', g'). (p', rest', Some (take (length rest - length rest') rest)))
       (run r (p, rest, g))"
| "run Bos (p, rest, g) = (if p = None then [(p, rest, g)] else [])"
| "run Bol (p, rest, g) = (if p = None \<or> p = Some NL then [(p, rest, g)] else [])"
| "run Eol (p, rest, g) = (case rest of [] \<Rightarrow> [(p, rest, g)]
     | x # xs \<Rightarrow> if x = NL then [(p, rest, g)] else [])"

text \<open>
  A sequence of character classes, a literal string, a literal string under
  \<open>re.IGNORECASE\<close> (only letters are cased), \<open>x+\<close> and the greedy \<open>x?\<close>.
\<close>

fun chrs :: "cls list \<Rightarrow> re" where
  "chrs [] = Eps"
| "chrs (c # cs) = Seq (Chr c) (chrs cs)"

definition ci_cls :: "nat \<Rightarrow> cls" where
  "ci_cls c = (if 97 \<le> c \<and> c \<le> 122 \<or> 65 \<le> c \<and> c \<le> 90 then LitI (lower_char c) else Lit c)"

definition lits :: "ustr \<Rightarrow> re" where
  "lits w = chrs (map Lit w)"

definition litsI :: "ustr \<Rightarrow> re" where
  "litsI w = chrs (map ci_cls w)"

definition Plus :: "cls \<Rightarrow> re" where
  "Plus c = Seq (Chr c) (Star c)"

definition Opt :: "cls \<Rightarrow> re" where
  "Opt c = Alt (Chr c) Eps"

text \<open>
  A match object: the text of group 1 and the text after the end of the match
  (\<open>s[m.end():]\<close>).
\<close>

record match =
  group1 :: "ustr option"
  after :: ustr

definition first_match :: "re \<Rightarrow> mstate \<Rightarrow> match option" where
  "first_match r st =
     (case run r st of [] \<Rightarrow> None
      | (p, rest, g) # _ \<Rightarrow> Some \<lparr>group1 = g, after = rest\<rparr>)"

text \<open>\<open>re.match(r, s)\<close>: the pattern is tried at the start of the string only.\<close>

definition re_match :: "re \<Rightarrow> ustr \<Rightarrow> match option" where
  "re_match r s = first_match r (None, s, None)"

text \<open>\<open>re.search(r, s)\<close>: the leftmost position at which the pattern matches.\<close>

fun search_from :: "re \<Rightarrow> nat option \<Rightarrow> ustr \<Rightarrow> match option" where
  "search_from r p [] = first_match r (p, [], None)"
| "search_from r p (x # xs) =
     (case first_match r (p, x # xs, None) of
        Some m \<Rightarrow> Some m
      | None \<Rightarrow> search_from r (Some x) xs)"

definition re_search :: "re \<Rightarrow> ustr \<Rightarrow> match option" where
  "re_search r s = search_from r None s"

text \<open>
  \<open>re.findall(r, s)\<close> for a pattern with one group: the group texts of the successive
  non-overlapping matches, left to right.  After a match the scan goes on where the
  match ended.  (A match of the empty string moves the scan one position on; the one
  pattern the validator gives to \<open>findall\<close> consumes at least three code points.)
\<close>

definition group_text :: "ustr option \<Rightarrow> ustr" where
  "group_text g = (case g of None \<Rightarrow> [] | Some t \<Rightarrow> t)"

function findall_from :: "re \<Rightarrow> nat option \<Rightarrow> ustr \<Rightarrow> ustr list" where
  "findall_from r p s =
     (case run r (p, s, None) of
        [] \<Rightarrow> (case s of [] \<Rightarrow> [] | x # xs \<Rightarrow> findall_from r (Some x) xs)
      | (p', rest, g) # _ \<Rightarrow>
          (if length rest < length s then group_text g # findall_from r p' rest
           else group_text g # (case s of [] \<Rightarrow> [] | x # xs \<Rightarrow> findall_from r (Some x) xs)))"
  by pat_completeness auto
termination
  by (relation "measure (\<lambda>(r, p, s). length s)") auto

definition re_findall :: "re \<Rightarrow> ustr \<Rightarrow> ustr list" where
  "re_findall r s = findall_from r None s"

text \<open>\<open>m.group(1)\<close> of a match whose group took part in it.\<close>

definition group_1 :: "match \<Rightarrow> ustr" where
  "group_1 m = group_text (group1 m)"

fun seqs :: "re list \<Rightarrow> re" where
  "seqs [] = Eps"
| "seqs (r # rs) = Seq r (seqs rs)"

section \<open>The patterns of \<open>validate_rules.py\<close>\<close>

text \<open>\<^verbatim>\<open>r"^---\n(.*?)\n---\n"\<close> with \<open>re.DOTALL\<close> (line 44).\<close>

definition frontmatter_re :: re where
  "frontmatter_re =
     seqs [Bos, lits (u ''---\<newline>''), Grp (Lazy Any), lits (u ''\<newline>---\<newline>'')]"

text \<open>\<^verbatim>\<open>r'^description:\s*(.+)$'\<close> with \<open>re.MULTILINE\<close> (line 57).\<close>

definition description_re :: re where
  "description_re = seqs [Bol, lits (u ''description:''), Star Space, Grp (Plus Dot), Eol]"

text \<open>
  \<^verbatim>\<open>r'^alwaysApply:\s*(true|false)$'\<close> with \<open>re.MULTILINE | re.IGNORECASE\<close> (line 69).
\<close>

definition always_apply_re :: re where
  "always_apply_re =
     seqs [Bol, litsI (u ''alwaysApply:''), Star Space,
           Grp (Alt (litsI (u ''true'')) (litsI (u ''false''))), Eol]"

text \<open>\<^verbatim>\<open>r'^globs:\s*\[(.*?)\]'\<close> with \<open>re.MULTILINE | re.DOTALL\<close> (line 76).\<close>

definition globs_re :: re where
  "globs_re =
     seqs [Bol, lits (u ''globs:''), Star Space, Chr (Lit 91), Grp (Lazy Any), Chr (Lit 93)]"

text \<open>\<^verbatim>\<open>r'["\']([^"\']+)["\']'\<close> (line 81); 34 and 39 are the two quote characters.\<close>

definition globs_item_re :: re where
  "globs_item_re = seqs [Chr (OneOf [34, 39]), Grp (Plus (NoneOf [34, 39])), Chr (OneOf [34, 39])]"

text \<open>\<^verbatim>\<open>r'^globs:\s*\[?\s*\]'\<close> with \<open>re.MULTILINE\<close> (line 86).\<close>

definition globs_simple_re :: re where
  "globs_simple_re =
     seqs [Bol, lits (u ''globs:''), Star Space, Opt (Lit 91), Star Space, Chr (Lit 93)]"

section \<open>The validator\<close>

text \<open>The values a frontmatter dictionary holds, and the dictionary.\<close>

datatype pyval = PyNone | PyStr ustr | PyBool bool | PyList "ustr list"

type_synonym frontmatter = "string \<rightharpoonup> pyval"

text \<open>
  A \<open>Path\<close> is the list of its components; \<open>sorted\<close> compares such lists
  lexicographically.
\<close>

type_synonym path = "ustr list"

text \<open>
  The messages appended to \<open>self.errors\<close> and \<open>self.warnings\<close>, one constructor for
  each format string of the source, with the values it interpolates.
\<close>

datatype message =
    Unreadable path ustr
  | NoFrontmatter path
  | BadFrontmatter path
  | MissingDescription path
  | EmptyDescription path
  | MissingAlwaysApply path
  | GlobsNotList path
  | NoContentAfter path
  | NoRulesDir path
  | NoMdcFiles path

record stats =
  total_files :: nat
  valid_files :: nat
  invalid_files :: nat
  files_without_description :: nat
  files_without_alwaysApply :: nat
  files_with_invalid_yaml :: nat

record validator =
  rules_dir :: path
  errors :: "message list"
  warnings :: "message list"
  stats :: stats

text \<open>\<open>RuleValidator.__init__\<close> (lines 13-24).\<close>

definition init :: "path \<Rightarrow> validator" where
  "init d =
     \<lparr>rules_dir = d, errors = [], warnings = [],
      stats = \<lparr>total_files = 0, valid_files = 0, invalid_files = 0,
               files_without_description = 0, files_without_alwaysApply = 0,
               files_with_invalid_yaml = 0\<rparr>\<rparr>"

definition add_error :: "message \<Rightarrow> validator \<Rightarrow> validator" where
  "add_error m v = v\<lparr>errors := errors v @ [m]\<rparr>"

definition add_warning :: "message \<Rightarrow> validator \<Rightarrow> validator" where
  "add_warning m v = v\<lparr>warnings := warnings v @ [m]\<rparr>"

definition inc_total :: "validator \<Rightarrow> validator" where
  "inc_total v = v\<lparr>stats := (stats v)\<lparr>total_files := total_files (stats v) + 1\<rparr>\<rparr>"

definition inc_valid :: "validator \<Rightarrow> validator" where
  "inc_valid v = v\<lparr>stats := (stats v)\<lparr>valid_files := valid_files (stats v) + 1\<rparr>\<rparr>"

definition inc_invalid :: "validator \<Rightarrow> validator" where
  "inc_invalid v = v\<lparr>stats := (stats v)\<lparr>invalid_files := invalid_files (stats v) + 1\<rparr>\<rparr>"

definition inc_without_description :: "validator \<Rightarrow> validator" where
  "inc_without_description v =
     v\<lparr>stats := (stats v)\<lparr>files_without_description := files_without_description (stats v) + 1\<rparr>\<rparr>"

definition inc_without_alwaysApply :: "validator \<Rightarrow> validator" where
  "inc_without_alwaysApply v =
     v\<lparr>stats := (stats v)\<lparr>files_without_alwaysApply := files_without_alwaysApply (stats v) + 1\<rparr>\<rparr>"

text \<open>
  What the run sees of the file system: whether \<open>rules_dir\<close> exists, what
  \<open>rules_dir.rglob("*.mdc")\<close> finds, and what \<open>read_text\<close> gives for a path, the text of
  the exception (\<open>Inl\<close>) or the decoded content.  A file that \<open>rglob\<close> finds is listed by
  its components below \<open>rules_dir\<close>; the path that \<open>rglob\<close> yields for it is \<open>rules_dir\<close>
  followed by them.
\<close>

record fsys =
  dir_exists :: bool
  rglob_mdc :: "path list"
  read_text :: "path \<Rightarrow> ustr + ustr"

subsection \<open>The header parser (lines 52-90 of \<open>validate_file\<close>)\<close>

definition parse_description :: "ustr \<Rightarrow> pyval" where
  "parse_description frontmatter_str =
     (case re_search description_re frontmatter_str of
        Some description_match \<Rightarrow>
          (let desc_value = strip (group_1 description_match) in
           if startswith desc_value [34] \<and> endswith desc_value [34] then PyStr (slice_1_m1 desc_value)
           else if startswith desc_value [39] \<and> endswith desc_value [39] then PyStr (slice_1_m1 desc_value)
           else PyStr desc_value)
      | None \<Rightarrow> PyNone)"

definition parse_alwaysApply :: "ustr \<Rightarrow> pyval" where
  "parse_alwaysApply frontmatter_str =
     (case re_search always_apply_re frontmatter_str of
        Some always_apply_match \<Rightarrow> PyBool (lower (group_1 always_apply_match) = u ''true'')
      | None \<Rightarrow> PyNone)"

definition parse_globs :: "ustr \<Rightarrow> pyval" where
  "parse_globs frontmatter_str =
     (case re_search globs_re frontmatter_str of
        Some globs_match \<Rightarrow>
          (let globs_str = strip (group_1 globs_match) in
           if globs_str \<noteq> [] then PyList (re_findall globs_item_re globs_str)
           else PyList [])
      | None \<Rightarrow>
          (case re_search globs_simple_re frontmatter_str of
             Some globs_simple \<Rightarrow> PyList []
           | None \<Rightarrow> PyNone))"

definition parse_frontmatter :: "ustr \<Rightarrow> frontmatter" where
  "parse_frontmatter frontmatter_str =
     [''description'' \<mapsto> parse_description frontmatter_str,
      ''alwaysApply'' \<mapsto> parse_alwaysApply frontmatter_str,
      ''globs'' \<mapsto> parse_globs frontmatter_str]"

subsection \<open>\<open>validate_file\<close> (lines 26-123)\<close>

text \<open>
  Python's \<open>not v\<close>, and the test of line 99, \<open>not v or not v.strip()\<close>.  The value
  tested is the one stored at \<open>"description"\<close>, which is \<open>None\<close> or a \<open>str\<close>; only a
  \<open>str\<close> has \<open>strip\<close>.
\<close>

fun falsy :: "pyval \<Rightarrow> bool" where
  "falsy PyNone = True"
| "falsy (PyStr s) = (s = [])"
| "falsy (PyBool b) = (\<not> b)"
| "falsy (PyList xs) = (xs = [])"

fun blank :: "pyval \<Rightarrow> bool" where
  "blank (PyStr s) = (s = [] \<or> strip s = [])"
| "blank v = falsy v"

text \<open>\<open>isinstance(v, list)\<close>.\<close>

fun isinstance_list :: "pyval \<Rightarrow> bool" where
  "isinstance_list (PyList xs) = True"
| "isinstance_list v = False"

text \<open>\<open>d[k]\<close> for a key that the dictionary holds.\<close>

definition item :: "frontmatter \<Rightarrow> string \<Rightarrow> pyval" where
  "item d k = the (d k)"

text \<open>
  Lines 92-111: the checks of the required properties.  The result is \<open>has_errors\<close>
  and the validator with the errors recorded.
\<close>

definition check_description :: "path \<Rightarrow> frontmatter \<Rightarrow> bool \<times> validator \<Rightarrow> bool \<times> validator" where
  "check_description file_path frontmatter hv =
     (if item frontmatter ''description'' = PyNone then
        (True, inc_without_description (add_error (MissingDescription file_path) (snd hv)))
      else if blank (item frontmatter ''description'') then
        (True, add_error (EmptyDescription file_path) (snd hv))
      else hv)"

definition check_alwaysApply :: "path \<Rightarrow> frontmatter \<Rightarrow> bool \<times> validator \<Rightarrow> bool \<times> validator" where
  "check_alwaysApply file_path frontmatter hv =
     (if item frontmatter ''alwaysApply'' = PyNone then
        (True, inc_without_alwaysApply (add_error (MissingAlwaysApply file_path) (snd hv)))
      else hv)"

definition check_globs :: "path \<Rightarrow> frontmatter \<Rightarrow> bool \<times> validator \<Rightarrow> bool \<times> validator" where
  "check_globs file_path frontmatter hv =
     (if item frontmatter ''globs'' \<noteq> PyNone \<and> \<not> isinstance_list (item frontmatter ''globs'') then
        (True, add_error (GlobsNotList file_path) (snd hv))
      else hv)"

definition validate_file :: "fsys \<Rightarrow> path \<Rightarrow> validator \<Rightarrow> (bool \<times> frontmatter) \<times> validator" where
  "validate_file fs file_path self =
     (let v = inc_total self in
      case read_text fs file_path of
        Inl e \<Rightarrow> ((False, Map.empty), inc_invalid (add_error (Unreadable file_path e) v))
      | Inr content \<Rightarrow>
          if \<not> startswith content (u ''---'') then
            ((False, Map.empty), inc_invalid (add_error (NoFrontmatter file_path) v))
          else
            (case re_match frontmatter_re content of
               None \<Rightarrow> ((False, Map.empty), inc_invalid (add_error (BadFrontmatter file_path) v))
             | Some frontmatter_match \<Rightarrow>
                 (let frontmatter_str = group_1 frontmatter_match;
                      frontmatter = parse_frontmatter frontmatter_str;
                      (has_errors, v') =
                        check_globs file_path frontmatter
                          (check_alwaysApply file_path frontmatter
                            (check_description file_path frontmatter (False, v)));
                      content_after = strip (after frontmatter_match);
                      v'' = (if content_after = [] then add_warning (NoContentAfter file_path) v'
                             else v')
                  in if has_errors then ((False, frontmatter), inc_invalid v'')
                     else ((True, frontmatter), inc_valid v''))))"

subsection \<open>\<open>validate_all\<close> (lines 125-151), \<open>print_report\<close> (lines 153-188), \<open>main\<close>\<close>

text \<open>The lines written to standard output, one constructor for each \<open>print\<close>.\<close>

datatype line =
    Announce nat
  | FileStatus bool path
  | FileDescription ustr
  | Banner
  | ReportTitle
  | StatsTitle
  | TotalFiles nat
  | ValidFiles nat
  | InvalidFiles nat
  | WithoutDescription nat
  | WithoutAlwaysApply nat
  | InvalidYaml nat
  | ErrorsTitle nat
  | WarningsTitle nat
  | Item message
  | AllConfigured
  | ValidWithWarnings
  | MustBeFixed

text \<open>
  \<open>file_path.relative_to(self.rules_dir)\<close> (line 147), for a path that \<open>rglob\<close> yielded:
  it is \<open>rules_dir\<close> followed by the components of the file below it, and the call
  returns these components.
\<close>

definition relative_to :: "path \<Rightarrow> path \<Rightarrow> path" where
  "relative_to file_path other = drop (length other) file_path"

text \<open>
  Lines 144-149, for a valid file: \<open>frontmatter.get("alwaysApply", False)\<close> picks the
  marker that stands before the path of the file relative to \<open>rules_dir\<close>, and the first
  60 code points of the description follow when there are any.
\<close>

definition file_lines :: "validator \<Rightarrow> path \<Rightarrow> frontmatter \<Rightarrow> line list" where
  "file_lines self file_path frontmatter =
     (let always_apply = (case frontmatter ''alwaysApply'' of None \<Rightarrow> PyBool False | Some v \<Rightarrow> v);
          desc = (case frontmatter ''description'' of Some (PyStr d) \<Rightarrow> take 60 d | _ \<Rightarrow> [])
      in FileStatus (\<not> falsy always_apply) (relative_to file_path (rules_dir self)) #
         (if desc \<noteq> [] then [FileDescription desc] else []))"

fun validate_each :: "fsys \<Rightarrow> path list \<Rightarrow> line list \<times> validator \<Rightarrow> line list \<times> validator" where
  "validate_each fs [] (out, v) = (out, v)"
| "validate_each fs (file_path # ps) (out, v) =
     (case validate_file fs file_path v of
        ((is_valid, frontmatter), v') \<Rightarrow>
          validate_each fs ps
            (if is_valid then out @ file_lines v' file_path frontmatter else out, v'))"

definition validate_all :: "fsys \<Rightarrow> validator \<Rightarrow> (bool \<times> line list) \<times> validator" where
  "validate_all fs self =
     (if \<not> dir_exists fs then ((False, []), add_error (NoRulesDir (rules_dir self)) self)
      else
        (let mdc_files = map (\<lambda>found. rules_dir self @ found) (rglob_mdc fs) in
         if mdc_files = [] then ((False, []), add_error (NoMdcFiles (rules_dir self)) self)
         else
           (case validate_each fs (sort mdc_files) ([Announce (length mdc_files)], self) of
              (out, v) \<Rightarrow> ((errors v = [], out), v))))"

definition print_report :: "validator \<Rightarrow> line list" where
  "print_report self =
     [Banner, ReportTitle, Banner, StatsTitle,
      TotalFiles (total_files (stats self)),
      ValidFiles (valid_files (stats self)),
      InvalidFiles (invalid_files (stats self))]
     @ (if files_without_description (stats self) > 0
        then [WithoutDescription (files_without_description (stats self))] else [])
     @ (if files_without_alwaysApply (stats self) > 0
        then [WithoutAlwaysApply (files_without_alwaysApply (stats self))] else [])
     @ (if files_with_invalid_yaml (stats self) > 0
        then [InvalidYaml (files_with_invalid_yaml (stats self))] else [])
     @ (if errors self \<noteq> [] then ErrorsTitle (length (errors self)) # map Item (errors self) else [])
     @ (if warnings self \<noteq> [] then WarningsTitle (length (warnings self)) # map Item (warnings self)
        else [])
     @ [if errors self = [] \<and> warnings self = [] then AllConfigured
        else if errors self = [] then ValidWithWarnings
        else MustBeFixed]
     @ [Banner]"

text \<open>
  \<open>main\<close> (lines 190-196): a validator on \<open>.cursor/rules\<close>, the run, the report, the exit
  status.  The result is the status, the output and the validator at the end.
\<close>

definition main :: "fsys \<Rightarrow> nat \<times> line list \<times> validator" where
  "main fs =
     (case validate_all fs (init [u ''.cursor'', u ''rules'']) of
        ((is_valid, out), validator) \<Rightarrow>
          (if is_valid then 0 else 1, out @ print_report validator, validator))"

section \<open>Notions used in the statements\<close>

text \<open>
  The code point before the position reached after reading \<open>w\<close> from a position whose
  predecessor is \<open>p\<close>.
\<close>

definition prev :: "nat option \<Rightarrow> ustr \<Rightarrow> nat option" where
  "prev p w = (if w = [] then p else Some (last w))"

text \<open>The positions of a string at which \<open>re.search\<close> tries a pattern, left to right.\<close>

fun starts :: "nat option \<Rightarrow> ustr \<Rightarrow> (nat option \<times> ustr) list" where
  "starts p [] = [(p, [])]"
| "starts p (x # xs) = (p, x # xs) # starts (Some x) xs"

text \<open>Whether a text begins with code points that a sequence of classes accepts.\<close>

fun accepts :: "cls list \<Rightarrow> ustr \<Rightarrow> bool" where
  "accepts [] s = True"
| "accepts (c # cs) [] = False"
| "accepts (c # cs) (x # xs) = (cls_ok c x \<and> accepts cs xs)"

text \<open>The lines of a text, as \<open>s.split("\n")\<close> gives them.\<close>

fun split_lines :: "ustr \<Rightarrow> ustr list" where
  "split_lines [] = [[]]"
| "split_lines (x # xs) =
     (if x = NL then [] # split_lines xs
      else (case split_lines xs of [] \<Rightarrow> [[x]] | l # ls \<Rightarrow> (x # l) # ls))"

text \<open>
  The texts that follow a key, for each place where the key stands at the beginning of
  a line of \<open>s\<close>, from left to right.  The key is a sequence of classes, so that it can
  be one matched without regard to case.
\<close>

definition after_key :: "cls list \<Rightarrow> ustr \<Rightarrow> ustr list" where
  "after_key cs s =
     map (\<lambda>(q, t). drop (length cs) t)
       (filter (\<lambda>(q, t). (q = None \<or> q = Some NL) \<and> accepts cs t) (starts None s))"

text \<open>The first value of a list of optional values.\<close>

fun first_some :: "'a option list \<Rightarrow> 'a option" where
  "first_some [] = None"
| "first_some (None # xs) = first_some xs"
| "first_some (Some x # xs) = Some x"

text \<open>
  Reading a truth value from the text after the key \<open>alwaysApply:\<close>: blanks (line breaks
  are blanks), then \<open>true\<close> or \<open>false\<close> in any case, then the end of a line.
\<close>

definition at_eol :: "ustr \<Rightarrow> bool" where
  "at_eol s \<longleftrightarrow> s = [] \<or> hd s = NL"

definition bool_value :: "ustr \<Rightarrow> bool option" where
  "bool_value t =
     (let v = dropWhile isspace t in
      if accepts (map ci_cls (u ''true'')) v \<and> at_eol (drop 4 v) then Some True
      else if accepts (map ci_cls (u ''false'')) v \<and> at_eol (drop 5 v) then Some False
      else None)"

definition scan_alwaysApply :: "ustr \<Rightarrow> pyval" where
  "scan_alwaysApply hdr =
     (case first_some (map bool_value (after_key (map ci_cls (u ''alwaysApply:'')) hdr)) of
        None \<Rightarrow> PyNone
      | Some b \<Rightarrow> PyBool b)"

text \<open>
  A line that gives \<open>alwaysApply\<close> on one line, as the specification words it: the key,
  blanks, and \<open>true\<close> or \<open>false\<close> in any case up to the end of the line.
\<close>

definition single_line_bool :: "ustr \<Rightarrow> bool" where
  "single_line_bool l \<longleftrightarrow>
     accepts (map ci_cls (u ''alwaysApply:'')) l \<and>
     (let v = dropWhile isspace (drop 12 l) in
      accepts (map ci_cls (u ''true'')) v \<and> length v = 4 \<or>
      accepts (map ci_cls (u ''false'')) v \<and> length v = 5)"

text \<open>
  A rule file laid out as the example of the specification: the header gives the
  description in double quotes, the flag, and the globs as a bracketed list of
  double-quoted items separated by a comma and a blank, on three lines in this order.
\<close>

definition quoted :: "ustr \<Rightarrow> ustr" where
  "quoted g = 34 # g @ [34]"

fun join_items :: "ustr list \<Rightarrow> ustr" where
  "join_items [] = []"
| "join_items [g] = quoted g"
| "join_items (g # gs) = quoted g @ u '', '' @ join_items gs"

definition header_text :: "ustr \<Rightarrow> bool \<Rightarrow> ustr list \<Rightarrow> ustr" where
  "header_text d b gs =
     u ''description: '' @ quoted d @ [NL]
     @ u ''alwaysApply: '' @ (if b then u ''true'' else u ''false'') @ [NL]
     @ u ''globs: ['' @ join_items gs @ u '']''"

definition rule_text :: "ustr \<Rightarrow> bool \<Rightarrow> ustr list \<Rightarrow> ustr \<Rightarrow> ustr" where
  "rule_text d b gs body = u ''---\<newline>'' @ header_text d b gs @ u ''\<newline>---\<newline>'' @ body"

text \<open>An item that the list pattern reads back: not empty, without quote, \<open>]\<close> or line break.\<close>

definition plain_item :: "ustr \<Rightarrow> bool" where
  "plain_item g \<longleftrightarrow> g \<noteq> [] \<and> 34 \<notin> set g \<and> 39 \<notin> set g \<and> 93 \<notin> set g \<and> NL \<notin> set g"

section \<open>Concrete inputs\<close>

text \<open>
  File systems for the concrete instances below: a rules directory that holds the one
  file \<open>rule.mdc\<close> with a given content, one that is missing, and one without rule files.
\<close>

definition rule_mdc :: path where
  "rule_mdc = [u ''.cursor'', u ''rules'', u ''rule.mdc'']"

definition one_file :: "ustr \<Rightarrow> fsys" where
  "one_file content =
     \<lparr>dir_exists = True, rglob_mdc = [[u ''rule.mdc'']], read_text = (\<lambda>p. Inr content)\<rparr>"

definition no_dir :: fsys where
  "no_dir = \<lparr>dir_exists = False, rglob_mdc = [], read_text = (\<lambda>p. Inl (u ''missing''))\<rparr>"

definition empty_dir :: fsys where
  "empty_dir = \<lparr>dir_exists = True, rglob_mdc = [], read_text = (\<lambda>p. Inl (u ''missing''))\<rparr>"

section \<open>Evaluating the model\<close>

declare findall_from.simps [simp del]

lemma u_Nil [simp]: "u [] = []"
  by (simp add: u_def)

lemma u_Cons [simp]: "u (c # cs) = of_char c # u cs"
  by (simp add: u_def)

lemma findall_nil: "run r (p, [], None) = [] \<Longrightarrow> findall_from r p [] = []"
  by (subst findall_from.simps) simp

lemma findall_skip:
  "run r (p, x # xs, None) = [] \<Longrightarrow> findall_from r p (x # xs) = findall_from r (Some x) xs"
  by (subst findall_from.simps) simp

lemma findall_hit:
  "run r (p, s, None) = (p', rest, g) # others \<Longrightarrow> length rest < length s \<Longrightarrow>
   findall_from r p s = group_text g # findall_from r p' rest"
  by (subst findall_from.simps) simp

lemmas eval_defs = lits_def litsI_def ci_cls_def re_search_def re_match_def re_findall_def first_match_def isspace_def strip_def
  startswith_def endswith_def slice_1_m1_def lower_def lower_char_def ci_eq_def group_1_def
  group_text_def Plus_def Opt_def findall_nil findall_skip findall_hit

lemmas bump_defs = add_error_def add_warning_def inc_total_def inc_valid_def inc_invalid_def
  inc_without_description_def inc_without_alwaysApply_def

section \<open>The fields of a parsed header\<close>

lemma parse_globs_cases: "parse_globs s = PyNone \<or> (\<exists>xs. parse_globs s = PyList xs)"
  by (simp add: parse_globs_def Let_def split: option.splits)

lemma parse_description_cases:
  "parse_description s = PyNone \<or> (\<exists>d. parse_description s = PyStr d)"
  by (simp add: parse_description_def Let_def split: option.splits)

lemma parse_alwaysApply_cases:
  "parse_alwaysApply s = PyNone \<or> (\<exists>b. parse_alwaysApply s = PyBool b)"
  by (simp add: parse_alwaysApply_def split: option.splits)

lemma item_parse [simp]:
  "item (parse_frontmatter s) ''description'' = parse_description s"
  "item (parse_frontmatter s) ''alwaysApply'' = parse_alwaysApply s"
  "item (parse_frontmatter s) ''globs'' = parse_globs s"
  by (simp_all add: item_def parse_frontmatter_def)

lemma check_globs_parse: "check_globs p (parse_frontmatter s) hv = hv"
  using parse_globs_cases [of s] by (auto simp: check_globs_def)

text \<open>\<open>validate_file\<close> on a file whose header block is found, in closed form.\<close>

lemma validate_file_parsed:
  assumes "read_text fs p = Inr content" and "startswith content (u ''---'')"
    and "re_match frontmatter_re content = Some m"
  shows "validate_file fs p v =
    (let d = parse_description (group_1 m); a = parse_alwaysApply (group_1 m);
         es = (if d = PyNone then [MissingDescription p]
               else if blank d then [EmptyDescription p] else [])
              @ (if a = PyNone then [MissingAlwaysApply p] else [])
     in ((es = [], parse_frontmatter (group_1 m)),
         v\<lparr>errors := errors v @ es,
           warnings := warnings v @ (if strip (after m) = [] then [NoContentAfter p] else []),
           stats := (stats v)\<lparr>total_files := total_files (stats v) + 1,
              valid_files := valid_files (stats v) + (if es = [] then 1 else 0),
              invalid_files := invalid_files (stats v) + (if es = [] then 0 else 1),
              files_without_description :=
                files_without_description (stats v) + (if d = PyNone then 1 else 0),
              files_without_alwaysApply :=
                files_without_alwaysApply (stats v) + (if a = PyNone then 1 else 0)\<rparr>\<rparr>))"
  using assms
  by (simp add: validate_file_def Let_def bump_defs check_description_def check_alwaysApply_def
      check_globs_parse)

section \<open>A file without the header delimiter\<close>

text \<open>
  Claim C8.  When the content of a file does not start with \<open>---\<close>, \<open>validate_file\<close>
  returns invalid with the empty frontmatter, appends exactly one error (the missing
  frontmatter one) whatever else the content holds, leaves the warnings alone, and
  changes no counter but \<open>total_files\<close> and \<open>invalid_files\<close>, each by one.
\<close>

theorem no_header_one_error:
  assumes "read_text fs p = Inr content" and "\<not> startswith content (u ''---'')"
  shows "validate_file fs p v =
     ((False, Map.empty),
      v\<lparr>errors := errors v @ [NoFrontmatter p],
        stats := (stats v)\<lparr>total_files := total_files (stats v) + 1,
                           invalid_files := invalid_files (stats v) + 1\<rparr>\<rparr>)"
  using assms by (simp add: validate_file_def Let_def bump_defs)

theorem no_header_one_error_witness:
  "read_text (one_file (u ''# Rule'')) rule_mdc = Inr (u ''# Rule'')
   \<and> \<not> startswith (u ''# Rule'') (u ''---'')
   \<and> fst (validate_file (one_file (u ''# Rule'')) rule_mdc (init [])) = (False, Map.empty)
   \<and> errors (snd (validate_file (one_file (u ''# Rule'')) rule_mdc (init []))) = [NoFrontmatter rule_mdc]
   \<and> stats (snd (validate_file (one_file (u ''# Rule'')) rule_mdc (init []))) =
       \<lparr>total_files = 1, valid_files = 0, invalid_files = 1, files_without_description = 0,
        files_without_alwaysApply = 0, files_with_invalid_yaml = 0\<rparr>"
proof -
  have r: "read_text (one_file (u ''# Rule'')) rule_mdc = Inr (u ''# Rule'')"
    by (simp add: one_file_def)
  have h: "\<not> startswith (u ''# Rule'') (u ''---'')"
    by (simp add: startswith_def)
  show ?thesis
    using r h no_header_one_error [OF r h, of "init []"] by (simp add: init_def)
qed

section \<open>The invalid-YAML counter\<close>

lemma validate_file_yaml:
  "files_with_invalid_yaml (stats (snd (validate_file fs p v))) = files_with_invalid_yaml (stats v)"
  by (simp add: validate_file_def Let_def bump_defs check_description_def check_alwaysApply_def
      check_globs_parse split: sum.splits option.splits prod.splits)

lemma validate_each_yaml:
  "files_with_invalid_yaml (stats (snd (validate_each fs ps (out, v)))) =
   files_with_invalid_yaml (stats v)"
proof (induction ps arbitrary: out v)
  case Nil
  show ?case by simp
next
  case (Cons q ps)
  obtain b fm v' where r: "validate_file fs q v = ((b, fm), v')"
    by (metis prod.exhaust)
  have "files_with_invalid_yaml (stats v') = files_with_invalid_yaml (stats v)"
    using validate_file_yaml [of fs q v] r by simp
  with Cons r show ?case by simp
qed

lemma validate_all_yaml:
  "files_with_invalid_yaml (stats (snd (validate_all fs v))) = files_with_invalid_yaml (stats v)"
proof -
  let ?ps = "sort (map (\<lambda>found. rules_dir v @ found) (rglob_mdc fs))"
  obtain out v' where r:
    "validate_each fs ?ps ([Announce (length (rglob_mdc fs))], v) = (out, v')"
    by (metis prod.exhaust)
  show ?thesis
    using validate_each_yaml [of fs ?ps "[Announce (length (rglob_mdc fs))]" v] r
    by (simp add: validate_all_def Let_def add_error_def)
qed

lemma file_lines_yaml: "InvalidYaml n \<notin> set (file_lines v p fm)"
  by (simp add: file_lines_def Let_def)

lemma validate_each_out_yaml:
  "InvalidYaml n \<notin> set out \<Longrightarrow> InvalidYaml n \<notin> set (fst (validate_each fs ps (out, v)))"
proof (induction ps arbitrary: out v)
  case Nil
  then show ?case by simp
next
  case (Cons q ps)
  obtain b fm v' where r: "validate_file fs q v = ((b, fm), v')"
    by (metis prod.exhaust)
  have "InvalidYaml n \<notin> set (if b then out @ file_lines v' q fm else out)"
    using Cons.prems by (simp add: file_lines_yaml)
  from Cons.IH [OF this] r show ?case by simp
qed

lemma validate_all_out_yaml: "InvalidYaml n \<notin> set (snd (fst (validate_all fs v)))"
proof -
  let ?ps = "sort (map (\<lambda>found. rules_dir v @ found) (rglob_mdc fs))"
  obtain out v' where r:
    "validate_each fs ?ps ([Announce (length (rglob_mdc fs))], v) = (out, v')"
    by (metis prod.exhaust)
  show ?thesis
    using validate_each_out_yaml [of n "[Announce (length (rglob_mdc fs))]" fs ?ps v] r
    by (simp add: validate_all_def Let_def)
qed

lemma print_report_yaml:
  "files_with_invalid_yaml (stats v) = 0 \<Longrightarrow> InvalidYaml n \<notin> set (print_report v)"
  by (auto simp: print_report_def)

text \<open>
  Claim C10.  \<open>files_with_invalid_yaml\<close> starts at 0; neither \<open>validate_file\<close> nor
  \<open>validate_all\<close> changes it, whatever the files are; so it is 0 at the end of every run
  of \<open>main\<close>, and the output of the run never holds the invalid-YAML statistics line.
\<close>

theorem invalid_yaml_counter_stays_zero:
  "files_with_invalid_yaml (stats (init d)) = 0
   \<and> files_with_invalid_yaml (stats (snd (validate_file fs p v))) = files_with_invalid_yaml (stats v)
   \<and> files_with_invalid_yaml (stats (snd (validate_all fs v))) = files_with_invalid_yaml (stats v)
   \<and> files_with_invalid_yaml (stats (snd (snd (main fs)))) = 0
   \<and> (\<forall>n. InvalidYaml n \<notin> set (fst (snd (main fs))))"
proof -
  obtain b out v' where r: "validate_all fs (init [u ''.cursor'', u ''rules'']) = ((b, out), v')"
    by (metis prod.exhaust)
  have z: "files_with_invalid_yaml (stats v') = 0"
    using validate_all_yaml [of fs "init [u ''.cursor'', u ''rules'']"] r by (simp add: init_def)
  have o: "\<And>n. InvalidYaml n \<notin> set out"
    using validate_all_out_yaml [of _ fs "init [u ''.cursor'', u ''rules'']"] r by simp
  show ?thesis
    using z o r print_report_yaml [OF z]
    by (simp add: validate_file_yaml validate_all_yaml main_def) (simp add: init_def)
qed

theorem invalid_yaml_counter_stays_zero_witness:
  "files_with_invalid_yaml (stats (snd (snd (main (one_file (u ''# Rule'')))))) = 0
   \<and> InvalidYaml 1 \<notin> set (fst (snd (main (one_file (u ''# Rule'')))))"
  using invalid_yaml_counter_stays_zero [of "[]" "one_file (u ''# Rule'')" rule_mdc "init []"]
  by blast

section \<open>The exit status\<close>

lemma validate_all_flag:
  "errors v = [] \<Longrightarrow> fst (fst (validate_all fs v)) = (errors (snd (validate_all fs v)) = [])"
  by (simp add: validate_all_def Let_def add_error_def split: prod.splits)

text \<open>
  Claim C2.  The exit status of \<open>main\<close> is 0 exactly when no error was recorded in the
  run and 1 exactly when some error was (the warnings play no part).  When the rules
  directory does not exist, or holds no \<open>.mdc\<close> file, that itself records an error (the
  only one of the run) and the status is 1.
\<close>

theorem exit_status:
  "(fst (main fs) = 0 \<longleftrightarrow> errors (snd (snd (main fs))) = [])
   \<and> (fst (main fs) = 1 \<longleftrightarrow> errors (snd (snd (main fs))) \<noteq> [])
   \<and> (\<not> dir_exists fs \<longrightarrow>
        fst (main fs) = 1 \<and> errors (snd (snd (main fs))) = [NoRulesDir [u ''.cursor'', u ''rules'']])
   \<and> (dir_exists fs \<and> rglob_mdc fs = [] \<longrightarrow>
        fst (main fs) = 1 \<and> errors (snd (snd (main fs))) = [NoMdcFiles [u ''.cursor'', u ''rules'']])"
proof -
  let ?v0 = "init [u ''.cursor'', u ''rules'']"
  obtain b out v' where r: "validate_all fs ?v0 = ((b, out), v')"
    by (metis prod.exhaust)
  have e: "errors ?v0 = []" by (simp add: init_def)
  have b: "b = (errors v' = [])"
    using validate_all_flag [OF e, of fs] r by simp
  have m: "fst (main fs) = (if b then 0 else 1)" "snd (snd (main fs)) = v'"
    using r by (simp_all add: main_def)
  have d: "\<not> dir_exists fs \<Longrightarrow> errors v' = [NoRulesDir [u ''.cursor'', u ''rules'']]"
    using r by (auto simp: validate_all_def add_error_def init_def)
  have f: "dir_exists fs \<Longrightarrow> rglob_mdc fs = [] \<Longrightarrow>
      errors v' = [NoMdcFiles [u ''.cursor'', u ''rules'']]"
    using r by (auto simp: validate_all_def add_error_def init_def)
  show ?thesis
    using b m d f by auto
qed

theorem exit_status_witness:
  "\<not> dir_exists no_dir \<and> fst (main no_dir) = 1
   \<and> errors (snd (snd (main no_dir))) = [NoRulesDir [u ''.cursor'', u ''rules'']]
   \<and> dir_exists empty_dir \<and> rglob_mdc empty_dir = [] \<and> fst (main empty_dir) = 1
   \<and> errors (snd (snd (main empty_dir))) = [NoMdcFiles [u ''.cursor'', u ''rules'']]"
proof -
  have a: "\<not> dir_exists no_dir" by (simp add: no_dir_def)
  have b: "dir_exists empty_dir \<and> rglob_mdc empty_dir = []" by (simp add: empty_dir_def)
  show ?thesis
    using a b exit_status [of no_dir] exit_status [of empty_dir] by blast
qed

section \<open>The type check on \<open>globs\<close>\<close>

lemma validate_file_new_errors:
  "\<exists>new. errors (snd (validate_file fs p v)) = errors v @ new \<and> (\<forall>q. GlobsNotList q \<notin> set new)"
proof (cases "read_text fs p")
  case (Inl e)
  then show ?thesis by (simp add: validate_file_def Let_def bump_defs)
next
  case (Inr content)
  show ?thesis
  proof (cases "startswith content (u ''---'')")
    case False
    with Inr show ?thesis by (simp add: validate_file_def Let_def bump_defs)
  next
    case True
    show ?thesis
    proof (cases "re_match frontmatter_re content")
      case None
      with Inr True show ?thesis by (simp add: validate_file_def Let_def bump_defs)
    next
      case (Some m)
      show ?thesis
        by (simp add: validate_file_parsed [OF Inr True Some] Let_def)
    qed
  qed
qed

lemma validate_each_no_globs_error:
  "GlobsNotList q \<notin> set (errors v) \<Longrightarrow>
   GlobsNotList q \<notin> set (errors (snd (validate_each fs ps (out, v))))"
proof (induction ps arbitrary: out v)
  case Nil
  then show ?case by simp
next
  case (Cons f ps)
  obtain b fm v' where r: "validate_file fs f v = ((b, fm), v')"
    by (metis prod.exhaust)
  have "GlobsNotList q \<notin> set (errors v')"
    using validate_file_new_errors [of fs f v] r Cons.prems by auto
  from Cons.IH [OF this] r show ?case by simp
qed

lemma main_no_globs_error: "GlobsNotList q \<notin> set (errors (snd (snd (main fs))))"
proof -
  let ?v0 = "init [u ''.cursor'', u ''rules'']"
  let ?ps = "sort (map (\<lambda>found. rules_dir ?v0 @ found) (rglob_mdc fs))"
  obtain out v' where r:
    "validate_each fs ?ps ([Announce (length (rglob_mdc fs))], ?v0) = (out, v')"
    by (metis prod.exhaust)
  have "GlobsNotList q \<notin> set (errors ?v0)" by (simp add: init_def)
  from validate_each_no_globs_error [OF this, where fs = fs and ps = ?ps
      and out = "[Announce (length (rglob_mdc fs))]"] r
  have "GlobsNotList q \<notin> set (errors v')" by simp
  then show ?thesis
    using r by (simp add: main_def validate_all_def Let_def add_error_def init_def)
qed

lemma validate_file_globs_type:
  "(case snd (fst (validate_file fs p v)) ''globs'' of
      None \<Rightarrow> True | Some g \<Rightarrow> g = PyNone \<or> isinstance_list g)"
proof (cases "read_text fs p")
  case (Inl e)
  then show ?thesis by (simp add: validate_file_def Let_def)
next
  case (Inr content)
  show ?thesis
  proof (cases "startswith content (u ''---'')")
    case False
    with Inr show ?thesis by (simp add: validate_file_def Let_def)
  next
    case True
    show ?thesis
    proof (cases "re_match frontmatter_re content")
      case None
      with Inr True show ?thesis by (simp add: validate_file_def Let_def)
    next
      case (Some m)
      show ?thesis
        using parse_globs_cases [of "group_1 m"]
        by (auto simp: validate_file_parsed [OF Inr True Some] Let_def parse_frontmatter_def)
    qed
  qed
qed

text \<open>
  Claim C9.  The header parser gives \<open>globs\<close> the value \<open>None\<close> or a list, for every
  header; so does the frontmatter that \<open>validate_file\<close> returns, when it has the key.
  The check of lines 109-111 therefore never fires: it leaves \<open>has_errors\<close> and the
  validator as they are, \<open>validate_file\<close> appends no wrong-type error, and no run of
  \<open>main\<close> records one.
\<close>

theorem globs_type_check_unreachable:
  "(parse_globs s = PyNone \<or> (\<exists>xs. parse_globs s = PyList xs))
   \<and> (case snd (fst (validate_file fs p v)) ''globs'' of
        None \<Rightarrow> True | Some g \<Rightarrow> g = PyNone \<or> isinstance_list g)
   \<and> check_globs p (parse_frontmatter s) hv = hv
   \<and> (\<exists>new. errors (snd (validate_file fs p v)) = errors v @ new
         \<and> (\<forall>q. GlobsNotList q \<notin> set new))
   \<and> (\<forall>q. GlobsNotList q \<notin> set (errors (snd (snd (main fs)))))"
  using parse_globs_cases [of s] validate_file_globs_type [of fs p v]
    validate_file_new_errors [of fs p v] main_no_globs_error [of _ fs]
  by (simp add: check_globs_parse)

theorem globs_type_check_unreachable_witness:
  "GlobsNotList rule_mdc \<notin> set (errors (snd (snd (main (one_file (u ''# Rule''))))))"
  using globs_type_check_unreachable [of "[]" "one_file (u ''# Rule'')" rule_mdc "init []"]
  by blast

section \<open>The check of \<open>description\<close>\<close>

lemmas eval_re = frontmatter_re_def description_re_def always_apply_re_def globs_re_def
  globs_item_re_def globs_simple_re_def

lemma match_no_description: "re_match frontmatter_re (u ''---\<newline>alwaysApply: true\<newline>---\<newline>Body'') =
    Some \<lparr>group1 = Some (u ''alwaysApply: true''), after = u ''Body''\<rparr>"
  by (simp add: eval_re eval_defs)

lemma parse_no_description: "parse_description (u ''alwaysApply: true'') = PyNone"
  by (simp add: parse_description_def eval_re eval_defs)

lemma match_blank_description: "re_match frontmatter_re (u ''---\<newline>description: \"\"\<newline>---\<newline>Body'') =
    Some \<lparr>group1 = Some (u ''description: \"\"''), after = u ''Body''\<rparr>"
  by (simp add: eval_re eval_defs)

lemma parse_blank_description: "parse_description (u ''description: \"\"'') = PyStr []"
  by (simp add: parse_description_def eval_re eval_defs)

text \<open>
  Claim C4.  For a file whose header block is found: when the frontmatter has no
  description (\<open>None\<close>), the file is invalid, the missing-description error is
  recorded and \<open>files_without_description\<close> grows by exactly 1; when the description
  is a string that is blank after \<open>strip\<close>, the file is invalid and the
  empty-description error is recorded, and \<open>files_without_description\<close> stays as it was.
\<close>

theorem description_check:
  assumes "read_text fs p = Inr content" and "startswith content (u ''---'')"
    and "re_match frontmatter_re content = Some m"
  shows
   "(snd (fst (validate_file fs p v)) ''description'' = Some PyNone \<longrightarrow>
       \<not> fst (fst (validate_file fs p v))
     \<and> (\<exists>more. errors (snd (validate_file fs p v)) = errors v @ MissingDescription p # more)
     \<and> files_without_description (stats (snd (validate_file fs p v))) =
         files_without_description (stats v) + 1
     \<and> invalid_files (stats (snd (validate_file fs p v))) = invalid_files (stats v) + 1
     \<and> valid_files (stats (snd (validate_file fs p v))) = valid_files (stats v))
  \<and> (\<forall>d. snd (fst (validate_file fs p v)) ''description'' = Some (PyStr d) \<and> strip d = [] \<longrightarrow>
       \<not> fst (fst (validate_file fs p v))
     \<and> (\<exists>more. errors (snd (validate_file fs p v)) = errors v @ EmptyDescription p # more)
     \<and> files_without_description (stats (snd (validate_file fs p v))) =
         files_without_description (stats v)
     \<and> invalid_files (stats (snd (validate_file fs p v))) = invalid_files (stats v) + 1
     \<and> valid_files (stats (snd (validate_file fs p v))) = valid_files (stats v))"
  by (simp add: validate_file_parsed [OF assms] Let_def parse_frontmatter_def)

theorem description_check_witness:
  "snd (fst (validate_file (one_file (u ''---\<newline>alwaysApply: true\<newline>---\<newline>Body'')) rule_mdc (init [])))
     ''description'' = Some PyNone
   \<and> \<not> fst (fst (validate_file (one_file (u ''---\<newline>alwaysApply: true\<newline>---\<newline>Body'')) rule_mdc (init [])))
   \<and> files_without_description (stats (snd (validate_file
         (one_file (u ''---\<newline>alwaysApply: true\<newline>---\<newline>Body'')) rule_mdc (init [])))) = 1
   \<and> snd (fst (validate_file (one_file (u ''---\<newline>description: \"\"\<newline>---\<newline>Body'')) rule_mdc (init [])))
     ''description'' = Some (PyStr [])
   \<and> \<not> fst (fst (validate_file (one_file (u ''---\<newline>description: \"\"\<newline>---\<newline>Body'')) rule_mdc (init [])))
   \<and> files_without_description (stats (snd (validate_file
         (one_file (u ''---\<newline>description: \"\"\<newline>---\<newline>Body'')) rule_mdc (init [])))) = 0"
proof -
  let ?A = "u ''---\<newline>alwaysApply: true\<newline>---\<newline>Body''"
  let ?B = "u ''---\<newline>description: \"\"\<newline>---\<newline>Body''"
  have ra: "read_text (one_file ?A) rule_mdc = Inr ?A" and rb: "read_text (one_file ?B) rule_mdc = Inr ?B"
    by (simp_all add: one_file_def)
  have sa: "startswith ?A (u ''---'')" and sb: "startswith ?B (u ''---'')"
    by (simp_all add: startswith_def)
  have da: "snd (fst (validate_file (one_file ?A) rule_mdc (init []))) ''description'' = Some PyNone"
    using parse_no_description validate_file_parsed [OF ra sa match_no_description, of "init []"]
    by (simp add: Let_def parse_frontmatter_def group_1_def group_text_def)
  have db: "snd (fst (validate_file (one_file ?B) rule_mdc (init []))) ''description'' = Some (PyStr [])"
    using parse_blank_description validate_file_parsed [OF rb sb match_blank_description, of "init []"]
    by (simp add: Let_def parse_frontmatter_def group_1_def group_text_def)
  have z: "files_without_description (stats (init [])) = 0" "strip [] = []"
    by (simp_all add: init_def strip_def)
  show ?thesis
    using da db z
      description_check [OF ra sa match_no_description, of "init []"]
      description_check [OF rb sb match_blank_description, of "init []"]
    by simp
qed

section \<open>The matcher on literals and on quantified classes\<close>

lemma prev_Nil [simp]: "prev p [] = p"
  by (simp add: prev_def)

lemma prev_Cons [simp]: "prev p (x # xs) = prev (Some x) xs"
  by (simp add: prev_def)

lemma prev_append [simp]: "prev p (a @ b) = prev (prev p a) b"
  by (simp add: prev_def)

lemma run_chrs:
  "run (chrs cs) (p, s, g) =
     (if accepts cs s then [(prev p (take (length cs) s), drop (length cs) s, g)] else [])"
proof (induction cs arbitrary: p s)
  case Nil
  show ?case by simp
next
  case (Cons c cs)
  show ?case
  proof (cases s)
    case Nil
    then show ?thesis by simp
  next
    case (Cons x xs)
    then show ?thesis using Cons.IH [of "Some x" xs] by simp
  qed
qed

lemma accepts_Lit: "accepts (map Lit w) s \<longleftrightarrow> startswith s w"
proof (induction w arbitrary: s)
  case Nil
  show ?case by (simp add: startswith_def)
next
  case (Cons c w)
  show ?case using Cons.IH by (cases s) (auto simp: startswith_def)
qed

lemma accepts_append: "accepts cs s \<Longrightarrow> accepts cs (s @ t)"
  by (induction cs s rule: accepts.induct) auto

lemma accepts_length: "accepts cs s \<Longrightarrow> length cs \<le> length s"
  by (induction cs s rule: accepts.induct) auto

lemma star_lazy_upt:
  "star_lazy c p s g =
     map (\<lambda>k. (prev p (take k s), drop k s, g)) [0..<Suc (length (takeWhile (cls_ok c) s))]"
proof (induction s arbitrary: p)
  case Nil
  show ?case by simp
next
  case (Cons x xs)
  show ?case
  proof (cases "cls_ok c x")
    case False
    then show ?thesis by simp
  next
    case True
    let ?n = "length (takeWhile (cls_ok c) xs)"
    have "[0..<Suc (Suc ?n)] = 0 # [Suc 0..<Suc (Suc ?n)]"
      by (rule upt_conv_Cons) simp
    then have "[0..<Suc (Suc ?n)] = 0 # map Suc [0..<Suc ?n]"
      by (simp only: map_Suc_upt)
    then show ?thesis using True Cons.IH [of "Some x"] by (simp add: comp_def del: upt_Suc)
  qed
qed

lemma star_greedy_rev: "star_greedy c p s g = rev (star_lazy c p s g)"
  by (induction s arbitrary: p) auto

lemma star_greedy_upt:
  "star_greedy c p s g =
     rev (map (\<lambda>k. (prev p (take k s), drop k s, g)) [0..<Suc (length (takeWhile (cls_ok c) s))])"
  by (simp only: star_greedy_rev star_lazy_upt)

section \<open>Searching, and the lines of the header\<close>

lemma starts_nonempty [simp]: "starts p s \<noteq> []"
  by (cases s) simp_all

lemma starts_iff: "(q, t) \<in> set (starts p s) \<longleftrightarrow> (\<exists>a. s = a @ t \<and> q = prev p a)"
proof (induction s arbitrary: p)
  case Nil
  show ?case by auto
next
  case (Cons x xs)
  show ?case
  proof
    assume "(q, t) \<in> set (starts p (x # xs))"
    then consider "q = p \<and> t = x # xs" | "(q, t) \<in> set (starts (Some x) xs)" by auto
    then show "\<exists>a. x # xs = a @ t \<and> q = prev p a"
    proof cases
      case 1
      then have "x # xs = [] @ t \<and> q = prev p []" by simp
      then show ?thesis by blast
    next
      case 2
      then obtain a where "xs = a @ t" "q = prev (Some x) a" using Cons.IH by blast
      then have "x # xs = (x # a) @ t \<and> q = prev p (x # a)" by simp
      then show ?thesis by blast
    qed
  next
    assume "\<exists>a. x # xs = a @ t \<and> q = prev p a"
    then obtain a where a: "x # xs = a @ t" "q = prev p a" by blast
    show "(q, t) \<in> set (starts p (x # xs))"
    proof (cases a)
      case Nil
      with a have "t = x # xs" "q = p" by simp_all
      then show ?thesis by simp
    next
      case (Cons y a')
      with a have "xs = a' @ t" "q = prev (Some x) a'" by simp_all
      then have "(q, t) \<in> set (starts (Some x) xs)" using Cons.IH by blast
      then show ?thesis by simp
    qed
  qed
qed

lemma butlast_starts:
  "(q, t) \<in> set (butlast (starts p s)) \<Longrightarrow> t \<noteq> [] \<and> (q, t) \<in> set (starts p s)"
proof (induction s arbitrary: p)
  case Nil
  then show ?case by simp
next
  case (Cons x xs)
  then show ?case by (auto split: if_splits)
qed

lemma search_from_hit: "first_match r (p, s, None) = Some m \<Longrightarrow> search_from r p s = Some m"
  by (cases s) simp_all

lemma search_from_skip:
  "(\<And>q t. (q, t) \<in> set (butlast (starts p a)) \<Longrightarrow> first_match r (q, t @ b, None) = None)
   \<Longrightarrow> search_from r p (a @ b) = search_from r (prev p a) b"
proof (induction a arbitrary: p)
  case Nil
  show ?case by simp
next
  case (Cons x a)
  have h: "first_match r (p, (x # a) @ b, None) = None"
    using Cons.prems [of p "x # a"] by simp
  have "search_from r (Some x) (a @ b) = search_from r (prev (Some x) a) b"
  proof (rule Cons.IH)
    fix q t
    assume "(q, t) \<in> set (butlast (starts (Some x) a))"
    then show "first_match r (q, t @ b, None) = None"
      using Cons.prems [of q t] by simp
  qed
  with h show ?case by simp
qed

lemma search_from_None:
  "search_from r p s = None \<longleftrightarrow> (\<forall>(q, t) \<in> set (starts p s). first_match r (q, t, None) = None)"
  by (induction s arbitrary: p) (auto split: option.splits)

lemma search_from_Some:
  "search_from r p s = Some m \<Longrightarrow> \<exists>(q, t) \<in> set (starts p s). first_match r (q, t, None) = Some m"
  by (induction s arbitrary: p) (auto split: option.splits)

lemma first_match_None: "first_match r st = None \<longleftrightarrow> run r st = []"
  by (simp add: first_match_def split: list.splits)

lemma first_match_Some:
  "first_match r st = Some m \<longleftrightarrow> (\<exists>p rest g more. run r st = (p, rest, g) # more \<and> m = \<lparr>group1 = g, after = rest\<rparr>)"
  by (auto simp: first_match_def split: list.splits)

lemma run_keyed_empty:
  "\<not> ((q = None \<or> q = Some NL) \<and> accepts cs t) \<Longrightarrow> run (Seq Bol (Seq (chrs cs) R)) (q, t, g) = []"
  by (auto simp: run_chrs)

lemma split_lines_nonempty [simp]: "split_lines s \<noteq> []"
  by (induction s) (auto split: list.splits)

lemma hd_split_lines: "hd (split_lines s) = takeWhile (\<lambda>c. c \<noteq> NL) s"
  by (induction s) (auto split: list.splits)

lemma tl_split_lines_Cons:
  "tl (split_lines (x # xs)) = (if x = NL then split_lines xs else tl (split_lines xs))"
  by (auto split: list.splits)

lemma line_start_tl:
  "(Some NL, t) \<in> set (tl (starts p s)) \<Longrightarrow> takeWhile (\<lambda>c. c \<noteq> NL) t \<in> set (tl (split_lines s))"
proof (induction s arbitrary: p)
  case Nil
  then show ?case by simp
next
  case (Cons x xs)
  from Cons.prems have m: "(Some NL, t) \<in> set (starts (Some x) xs)" by simp
  show ?case
  proof (cases xs)
    case Nil
    with m show ?thesis by (auto simp: hd_split_lines)
  next
    case (Cons y ys)
    with m consider "x = NL \<and> t = xs" | "(Some NL, t) \<in> set (tl (starts (Some x) xs))" by auto
    then show ?thesis
    proof cases
      case 1
      then have "takeWhile (\<lambda>c. c \<noteq> NL) t = hd (split_lines xs)" by (simp add: hd_split_lines)
      then have "takeWhile (\<lambda>c. c \<noteq> NL) t \<in> set (split_lines xs)" by simp
      with 1 show ?thesis by (simp add: tl_split_lines_Cons del: split_lines.simps)
    next
      case 2
      from Cons.IH [OF 2] have "takeWhile (\<lambda>c. c \<noteq> NL) t \<in> set (tl (split_lines xs))" .
      then have "takeWhile (\<lambda>c. c \<noteq> NL) t \<in> set (split_lines xs)"
        by (meson list.set_sel(2) split_lines_nonempty)
      with \<open>takeWhile (\<lambda>c. c \<noteq> NL) t \<in> set (tl (split_lines xs))\<close> show ?thesis
        by (simp add: tl_split_lines_Cons del: split_lines.simps)
    qed
  qed
qed

lemma line_start:
  assumes "(q, t) \<in> set (starts None s)" and "q = None \<or> q = Some NL"
  shows "takeWhile (\<lambda>c. c \<noteq> NL) t \<in> set (split_lines s)"
proof (cases "(q, t) \<in> set (tl (starts None s))")
  case True
  then have "q \<noteq> None" by (cases s) (auto simp: starts_iff prev_def)
  with assms True have "takeWhile (\<lambda>c. c \<noteq> NL) t \<in> set (tl (split_lines s))"
    using line_start_tl by blast
  then show ?thesis by (meson list.set_sel(2) split_lines_nonempty)
next
  case False
  with assms(1) have "t = s" by (cases s) auto
  then have "takeWhile (\<lambda>c. c \<noteq> NL) t = hd (split_lines s)" by (simp add: hd_split_lines)
  then show ?thesis by simp
qed

lemma accepts_takeWhile:
  "accepts cs t \<Longrightarrow> \<forall>c \<in> set cs. \<not> cls_ok c NL \<Longrightarrow> accepts cs (takeWhile (\<lambda>c. c \<noteq> NL) t)"
  by (induction cs t rule: accepts.induct) auto

section \<open>Patterns that start with a key at the beginning of a line\<close>

lemma keyed_search_None:
  assumes "\<forall>l \<in> set (split_lines s). \<not> accepts cs l" and "\<forall>c \<in> set cs. \<not> cls_ok c NL"
  shows "search_from (Seq Bol (Seq (chrs cs) R)) None s = None"
proof -
  have "first_match (Seq Bol (Seq (chrs cs) R)) (q, t, None) = None"
    if m: "(q, t) \<in> set (starts None s)" for q t
  proof (cases "(q = None \<or> q = Some NL) \<and> accepts cs t")
    case False
    then show ?thesis using run_keyed_empty by (simp only: first_match_None)
  next
    case True
    then have "accepts cs (takeWhile (\<lambda>c. c \<noteq> NL) t)"
      using accepts_takeWhile assms(2) by blast
    moreover have "takeWhile (\<lambda>c. c \<noteq> NL) t \<in> set (split_lines s)"
      using line_start [OF m] True by blast
    ultimately show ?thesis using assms(1) by blast
  qed
  then show ?thesis by (auto simp: search_from_None)
qed

lemma keyed_search_skip:
  assumes "pre = [] \<or> last pre = NL" and "\<forall>l \<in> set (split_lines pre). \<not> accepts cs l"
    and "\<forall>c \<in> set cs. \<not> cls_ok c NL"
  shows "search_from (Seq Bol (Seq (chrs cs) R)) None (pre @ rest) =
         search_from (Seq Bol (Seq (chrs cs) R)) (prev None pre) rest"
proof (rule search_from_skip)
  fix q t
  assume b: "(q, t) \<in> set (butlast (starts None pre))"
  then have t: "t \<noteq> []" and m: "(q, t) \<in> set (starts None pre)"
    using butlast_starts by blast+
  from m obtain a where a: "pre = a @ t" by (auto simp: starts_iff)
  with t assms(1) have "last t = NL" by auto
  with t have nl: "NL \<in> set t" using last_in_set by metis
  show "first_match (Seq Bol (Seq (chrs cs) R)) (q, t @ rest, None) = None"
  proof (cases "(q = None \<or> q = Some NL) \<and> accepts cs (t @ rest)")
    case False
    then show ?thesis using run_keyed_empty by (simp only: first_match_None)
  next
    case True
    then have "accepts cs (takeWhile (\<lambda>c. c \<noteq> NL) (t @ rest))"
      using accepts_takeWhile assms(3) by blast
    moreover have "takeWhile (\<lambda>c. c \<noteq> NL) (t @ rest) = takeWhile (\<lambda>c. c \<noteq> NL) t"
      using nl by (simp add: takeWhile_append1)
    moreover have "takeWhile (\<lambda>c. c \<noteq> NL) t \<in> set (split_lines pre)"
      using line_start [OF m] True by blast
    ultimately show ?thesis using assms(2) by auto
  qed
qed

lemma bol_prev: "pre = [] \<or> last pre = NL \<Longrightarrow> prev None pre = None \<or> prev None pre = Some NL"
  by (auto simp: prev_def)

lemma globs_re_keyed:
  "globs_re = Seq Bol (Seq (chrs (map Lit (u ''globs:'')))
      (seqs [Star Space, Chr (Lit 91), Grp (Lazy Any), Chr (Lit 93)]))"
  by (simp only: globs_re_def seqs.simps lits_def)

lemma globs_simple_re_keyed:
  "globs_simple_re = Seq Bol (Seq (chrs (map Lit (u ''globs:'')))
      (seqs [Star Space, Opt (Lit 91), Star Space, Chr (Lit 93)]))"
  by (simp only: globs_simple_re_def seqs.simps lits_def)

lemma globs_key_nl: "\<forall>c \<in> set (map Lit (u ''globs:'')). \<not> cls_ok c NL"
  by simp

lemma first_match_empty_brackets:
  "p = None \<or> p = Some NL \<Longrightarrow>
   first_match globs_re (p, u ''globs: []'' @ post, None) = Some \<lparr>group1 = Some [], after = post\<rparr>"
  by (auto simp: eval_re eval_defs)

lemma parse_globs_empty_brackets:
  assumes "pre = [] \<or> last pre = NL"
    and "\<forall>l \<in> set (split_lines pre). \<not> startswith l (u ''globs:'')"
  shows "parse_globs (pre @ u ''globs: []'' @ post) = PyList []"
proof -
  have k: "\<forall>l \<in> set (split_lines pre). \<not> accepts (map Lit (u ''globs:'')) l"
    using assms(2) by (simp only: accepts_Lit)
  have "re_search globs_re (pre @ u ''globs: []'' @ post) =
        search_from globs_re (prev None pre) (u ''globs: []'' @ post)"
    unfolding re_search_def globs_re_keyed
    by (rule keyed_search_skip [OF assms(1) k globs_key_nl])
  also have "\<dots> = Some \<lparr>group1 = Some [], after = post\<rparr>"
    by (rule search_from_hit) (rule first_match_empty_brackets [OF bol_prev [OF assms(1)]])
  finally show ?thesis
    by (simp add: parse_globs_def group_1_def group_text_def strip_def)
qed

lemma parse_globs_no_key:
  assumes "\<forall>l \<in> set (split_lines hdr). \<not> startswith l (u ''globs:'')"
  shows "parse_globs hdr = PyNone"
proof -
  have k: "\<forall>l \<in> set (split_lines hdr). \<not> accepts (map Lit (u ''globs:'')) l"
    using assms by (simp only: accepts_Lit)
  have a: "re_search globs_re hdr = None"
    unfolding re_search_def globs_re_keyed by (rule keyed_search_None [OF k globs_key_nl])
  have b: "re_search globs_simple_re hdr = None"
    unfolding re_search_def globs_simple_re_keyed by (rule keyed_search_None [OF k globs_key_nl])
  show ?thesis by (simp add: parse_globs_def a b)
qed

text \<open>
  Claim C7.  When the first line of the header that starts with \<open>globs:\<close> is
  \<open>globs: []\<close>, the parsed \<open>globs\<close> is the empty list; when no line of the header starts
  with \<open>globs:\<close>, it is \<open>None\<close>; and the two outcomes differ.
\<close>

theorem empty_bracket_globs:
  "((pre = [] \<or> last pre = NL) \<and> (\<forall>l \<in> set (split_lines pre). \<not> startswith l (u ''globs:''))
      \<longrightarrow> parse_frontmatter (pre @ u ''globs: []'' @ post) ''globs'' = Some (PyList []))
   \<and> ((\<forall>l \<in> set (split_lines hdr). \<not> startswith l (u ''globs:''))
      \<longrightarrow> parse_frontmatter hdr ''globs'' = Some PyNone)
   \<and> Some (PyList []) \<noteq> Some PyNone"
  using parse_globs_empty_brackets [of pre post] parse_globs_no_key [of hdr]
  by (simp add: parse_frontmatter_def)

theorem empty_bracket_globs_witness:
  "parse_frontmatter (u ''description: x\<newline>globs: []'') ''globs'' = Some (PyList [])
   \<and> parse_frontmatter (u ''description: x'') ''globs'' = Some PyNone"
proof -
  have a: "last (u ''description: x\<newline>'') = NL"
    by simp
  have b: "\<forall>l \<in> set (split_lines (u ''description: x\<newline>'')). \<not> startswith l (u ''globs:'')"
    by (simp add: startswith_def)
  have c: "\<forall>l \<in> set (split_lines (u ''description: x'')). \<not> startswith l (u ''globs:'')"
    by (simp add: startswith_def)
  show ?thesis
    using a b c
      empty_bracket_globs [of "u ''description: x\<newline>''" "[]" "u ''description: x''"]
    by simp
qed

section \<open>Finding the header block\<close>

lemma startswith_iff: "startswith s w \<longleftrightarrow> (\<exists>r. s = w @ r)"
proof
  assume "startswith s w"
  then have "s = w @ drop (length w) s"
    by (metis append_take_drop_id startswith_def)
  then show "\<exists>r. s = w @ r" ..
next
  assume "\<exists>r. s = w @ r"
  then show "startswith s w" by (auto simp: startswith_def)
qed

lemma upt_split: "k < n \<Longrightarrow> [0..<n] = [0..<k] @ k # [Suc k..<n]"
proof -
  assume k: "k < n"
  have "[0..<n] = [0..<k] @ [k..<n]"
    using k upt_add_eq_append [of 0 k "n - k"] by simp
  also have "[k..<n] = k # [Suc k..<n]"
    using k by (rule upt_conv_Cons)
  finally show ?thesis .
qed

lemma concat_map_upt_first:
  "k < n \<Longrightarrow> (\<And>j. j < k \<Longrightarrow> f j = []) \<Longrightarrow>
   concat (map f [0..<n]) = f k @ concat (map f [Suc k..<n])"
  by (simp add: upt_split [of k n] del: upt_Suc)

lemma concat_map_upt_empty: "(\<And>j. j < n \<Longrightarrow> f j = []) \<Longrightarrow> concat (map f [0..<n]) = []"
  by simp

lemma takeWhile_Any [simp]: "takeWhile (cls_ok Any) s = s"
  by (simp add: takeWhile_eq_all_conv)

lemma run_lazy_any:
  "run (Seq (Grp (Lazy Any)) R) (p, s, g) =
     concat (map (\<lambda>k. run R (prev p (take k s), drop k s, Some (take k s))) [0..<Suc (length s)])"
proof -
  have h: "map (\<lambda>k. run R (prev p (take k s), drop k s, Some (take (length s - (length s - k)) s)))
          [0..<Suc (length s)] =
        map (\<lambda>k. run R (prev p (take k s), drop k s, Some (take k s))) [0..<Suc (length s)]"
    by (rule map_cong) (auto simp del: upt_Suc)
  show ?thesis
    by (simp add: star_lazy_upt comp_def h del: upt_Suc)
qed

lemma run_Seq_Bos: "run (Seq Bos R) (None, s, g) = run R (None, s, g)"
  by simp

lemma run_Seq_Bol:
  "run (Seq Bol R) (p, s, g) = (if p = None \<or> p = Some NL then run R (p, s, g) else [])"
  by auto

lemma run_Seq_chrs:
  "run (Seq (chrs cs) R) (p, s, g) =
     (if accepts cs s then run R (prev p (take (length cs) s), drop (length cs) s, g) else [])"
  by (simp add: run_chrs)

lemma frontmatter_re_unfold:
  "frontmatter_re = Seq Bos (Seq (chrs (map Lit (u ''---\<newline>'')))
      (Seq (Grp (Lazy Any)) (Seq (chrs (map Lit (u ''\<newline>---\<newline>''))) Eps)))"
  by (simp only: frontmatter_re_def seqs.simps lits_def)

lemma run_delimiter:
  "run (Seq (chrs (map Lit (u ''\<newline>---\<newline>''))) Eps) (q, t, g) =
     (if startswith t (u ''\<newline>---\<newline>'') then [(Some NL, drop 5 t, g)] else [])"
proof -
  have "run (Seq (chrs (map Lit (u ''\<newline>---\<newline>''))) Eps) (q, t, g) =
     (if startswith t (u ''\<newline>---\<newline>'')
      then run Eps (prev q (take (length (map Lit (u ''\<newline>---\<newline>''))) t),
                    drop (length (map Lit (u ''\<newline>---\<newline>''))) t, g)
      else [])"
    by (simp only: run_Seq_chrs accepts_Lit)
  then show ?thesis
    by (auto simp: startswith_def prev_def eval_nat_numeral)
qed

lemma run_frontmatter_re:
  "run frontmatter_re (None, content, None) =
     (if startswith content (u ''---\<newline>'') then
        concat (map (\<lambda>k. if startswith (drop k (drop 4 content)) (u ''\<newline>---\<newline>'')
                          then [(Some NL, drop 5 (drop k (drop 4 content)), Some (take k (drop 4 content)))]
                          else [])
                  [0..<Suc (length (drop 4 content))])
      else [])"
proof -
  have "run frontmatter_re (None, content, None) =
     (if startswith content (u ''---\<newline>'') then
        run (Seq (Grp (Lazy Any)) (Seq (chrs (map Lit (u ''\<newline>---\<newline>''))) Eps))
          (prev None (take (length (map Lit (u ''---\<newline>''))) content),
           drop (length (map Lit (u ''---\<newline>''))) content, None)
      else [])"
    by (simp only: frontmatter_re_unfold run_Seq_Bos run_Seq_chrs accepts_Lit)
  also have "\<dots> =
     (if startswith content (u ''---\<newline>'') then
        run (Seq (Grp (Lazy Any)) (Seq (chrs (map Lit (u ''\<newline>---\<newline>''))) Eps))
          (Some NL, drop 4 content, None)
      else [])"
    by (auto simp: startswith_def prev_def eval_nat_numeral simp del: run.simps chrs.simps)
  finally show ?thesis
    by (simp only: run_lazy_any run_delimiter)
qed

lemma tl_starts_iff:
  "(q, t) \<in> set (tl (starts p s)) \<longleftrightarrow> (\<exists>a. a \<noteq> [] \<and> s = a @ t \<and> q = prev p a)"
proof (cases s)
  case Nil
  then show ?thesis by simp
next
  case (Cons x xs)
  show ?thesis
  proof
    assume "(q, t) \<in> set (tl (starts p s))"
    with Cons obtain a where "xs = a @ t" "q = prev (Some x) a" by (auto simp: starts_iff)
    with Cons have "x # a \<noteq> [] \<and> s = (x # a) @ t \<and> q = prev p (x # a)" by simp
    then show "\<exists>a. a \<noteq> [] \<and> s = a @ t \<and> q = prev p a" by blast
  next
    assume "\<exists>a. a \<noteq> [] \<and> s = a @ t \<and> q = prev p a"
    then obtain a where a: "a \<noteq> []" "s = a @ t" "q = prev p a" by blast
    then obtain y a' where "a = y # a'" by (cases a) auto
    with a Cons have "xs = a' @ t" "q = prev (Some x) a'" by auto
    then have "(q, t) \<in> set (starts (Some x) xs)" by (auto simp: starts_iff)
    with Cons show "(q, t) \<in> set (tl (starts p s))" by simp
  qed
qed

lemma peel_char: "t @ NL # w = x # r \<Longrightarrow> x \<noteq> NL \<Longrightarrow> \<exists>t'. t = x # t' \<and> t' @ NL # w = r"
  by (cases t) auto

lemma delimiter_line:
  assumes "t @ NL # w = [45, 45, 45, NL] @ r"
  shows "takeWhile (\<lambda>c. c \<noteq> NL) t = [45, 45, 45]"
proof -
  from assms have "t @ NL # w = 45 # 45 # 45 # NL # r" by simp
  then obtain t1 where t1: "t = 45 # t1" "t1 @ NL # w = 45 # 45 # NL # r"
    using peel_char [of t w 45] by auto
  then obtain t2 where t2: "t1 = 45 # t2" "t2 @ NL # w = 45 # NL # r"
    using peel_char [of t1 w 45] by auto
  then obtain t3 where t3: "t2 = 45 # t3" "t3 @ NL # w = NL # r"
    using peel_char [of t2 w 45] by auto
  from t3(2) have "takeWhile (\<lambda>c. c \<noteq> NL) t3 = []"
    by (cases t3) auto
  with t1 t2 t3 show ?thesis by simp
qed

lemma no_early_delimiter:
  assumes "j < length h" and "startswith (drop j (h @ u ''\<newline>---\<newline>'' @ r)) (u ''\<newline>---\<newline>'')"
  shows "u ''---'' \<in> set (tl (split_lines h))"
proof -
  from assms(2) obtain r' where e: "drop j h @ u ''\<newline>---\<newline>'' @ r = u ''\<newline>---\<newline>'' @ r'"
    using assms(1) by (auto simp: startswith_iff)
  from assms(1) have "drop j h \<noteq> []" by simp
  with e obtain t where t: "drop j h = NL # t"
    by (cases "drop j h") auto
  with e have l: "t @ NL # (u ''---\<newline>'' @ r) = [45, 45, 45, NL] @ r'" by simp
  have "take j h @ drop j h = h" by (rule append_take_drop_id)
  with t have h: "h = (take j h @ [NL]) @ t" by simp
  have "take j h @ [NL] \<noteq> [] \<and> h = (take j h @ [NL]) @ t \<and> Some NL = prev None (take j h @ [NL])"
    using h by simp
  then have "(Some NL, t) \<in> set (tl (starts None h))"
    unfolding tl_starts_iff by blast
  then have "takeWhile (\<lambda>c. c \<noteq> NL) t \<in> set (tl (split_lines h))"
    by (rule line_start_tl)
  with delimiter_line [OF l] show ?thesis by simp
qed

lemma frontmatter_match_None:
  "re_match frontmatter_re content = None \<longleftrightarrow>
   \<not> (\<exists>h r. content = u ''---\<newline>'' @ h @ u ''\<newline>---\<newline>'' @ r)"
proof
  assume n: "re_match frontmatter_re content = None"
  show "\<not> (\<exists>h r. content = u ''---\<newline>'' @ h @ u ''\<newline>---\<newline>'' @ r)"
  proof
    assume "\<exists>h r. content = u ''---\<newline>'' @ h @ u ''\<newline>---\<newline>'' @ r"
    then obtain h r where c: "content = u ''---\<newline>'' @ h @ u ''\<newline>---\<newline>'' @ r" by blast
    have s: "startswith content (u ''---\<newline>'')" using c by (simp add: startswith_def)
    have d: "drop 4 content = h @ u ''\<newline>---\<newline>'' @ r" using c by simp
    let ?f = "\<lambda>k. if startswith (drop k (drop 4 content)) (u ''\<newline>---\<newline>'')
                  then [(Some NL, drop 5 (drop k (drop 4 content)), Some (take k (drop 4 content)))]
                  else []"
    have "?f (length h) \<noteq> []" using d by (simp add: startswith_def)
    moreover have "length h \<in> set [0..<Suc (length (drop 4 content))]" using d by simp
    ultimately have "\<exists>x \<in> set [0..<Suc (length (drop 4 content))]. ?f x \<noteq> []"
      by blast
    then have "concat (map ?f [0..<Suc (length (drop 4 content))]) \<noteq> []"
      by (simp only: concat_eq_Nil_conv set_map ball_simps image_iff bex_simps)
    with s have "run frontmatter_re (None, content, None) \<noteq> []"
      by (simp only: run_frontmatter_re if_True not_False_eq_True)
    with n show False by (simp add: re_match_def first_match_None)
  qed
next
  assume n: "\<not> (\<exists>h r. content = u ''---\<newline>'' @ h @ u ''\<newline>---\<newline>'' @ r)"
  have "run frontmatter_re (None, content, None) = []"
  proof (cases "startswith content (u ''---\<newline>'')")
    case False
    then show ?thesis by (simp only: run_frontmatter_re if_False)
  next
    case True
    then obtain r0 where c: "content = u ''---\<newline>'' @ r0" by (auto simp: startswith_iff)
    then have d: "drop 4 content = r0" by simp
    have "\<not> startswith (drop k r0) (u ''\<newline>---\<newline>'')" for k
    proof
      assume "startswith (drop k r0) (u ''\<newline>---\<newline>'')"
      then obtain r where "drop k r0 = u ''\<newline>---\<newline>'' @ r" by (auto simp: startswith_iff)
      then have "r0 = take k r0 @ u ''\<newline>---\<newline>'' @ r" by (metis append_take_drop_id)
      with c have "content = u ''---\<newline>'' @ take k r0 @ u ''\<newline>---\<newline>'' @ r" by simp
      with n show False by blast
    qed
    then show ?thesis
      using True by (simp only: run_frontmatter_re d if_True if_False) simp
  qed
  then show "re_match frontmatter_re content = None"
    by (simp add: re_match_def first_match_None)
qed

lemma frontmatter_match_first:
  assumes "u ''---'' \<notin> set (tl (split_lines h))"
  shows "re_match frontmatter_re (u ''---\<newline>'' @ h @ u ''\<newline>---\<newline>'' @ r) =
         Some \<lparr>group1 = Some h, after = r\<rparr>"
proof -
  let ?c = "u ''---\<newline>'' @ h @ u ''\<newline>---\<newline>'' @ r"
  let ?f = "\<lambda>k. if startswith (drop k (drop 4 ?c)) (u ''\<newline>---\<newline>'')
                then [(Some NL, drop 5 (drop k (drop 4 ?c)), Some (take k (drop 4 ?c)))]
                else []"
  have d: "drop 4 ?c = h @ u ''\<newline>---\<newline>'' @ r" by simp
  have s: "startswith ?c (u ''---\<newline>'')" by (simp add: startswith_def)
  have z: "?f j = []" if "j < length h" for j
    using no_early_delimiter [OF that, of r] assms by (simp only: d if_False if_True split: if_splits) auto
  have k: "?f (length h) = [(Some NL, r, Some h)]"
    by (simp add: startswith_def)
  have "length h < Suc (length (drop 4 ?c))" by simp
  from concat_map_upt_first [of "length h" "Suc (length (drop 4 ?c))" ?f, OF this z]
  have "concat (map ?f [0..<Suc (length (drop 4 ?c))]) =
        (Some NL, r, Some h) # concat (map ?f [Suc (length h)..<Suc (length (drop 4 ?c))])"
    by (simp only: k append_Cons append_Nil)
  with s have "\<exists>others. run frontmatter_re (None, ?c, None) = (Some NL, r, Some h) # others"
    by (simp only: run_frontmatter_re if_True) blast
  then show ?thesis
    by (auto simp: re_match_def first_match_def)
qed

lemma match_unterminated:
  "re_match frontmatter_re (u ''---\<newline>description: x\<newline>alwaysApply: true\<newline>---'') = None"
  by (simp add: eval_re eval_defs)

text \<open>
  For a file whose content starts with \<open>---\<close>, the malformed-frontmatter error is
  recorded exactly when the content is not of the form \<open>---\<close>, line break, a block, line
  break, \<open>---\<close>, line break, and the rest.  When the content has that form and no line
  of the block after its first is \<open>---\<close>, the frontmatter returned is the one parsed
  from that block.
\<close>

lemma frontmatter_error_iff:
  assumes "read_text fs p = Inr content" and "startswith content (u ''---'')"
  shows "(errors (snd (validate_file fs p v)) = errors v @ [BadFrontmatter p]
            \<longleftrightarrow> \<not> (\<exists>h r. content = u ''---\<newline>'' @ h @ u ''\<newline>---\<newline>'' @ r))
       \<and> (\<forall>h r. content = u ''---\<newline>'' @ h @ u ''\<newline>---\<newline>'' @ r
                  \<and> u ''---'' \<notin> set (tl (split_lines h))
            \<longrightarrow> snd (fst (validate_file fs p v)) = parse_frontmatter h)"
proof (cases "re_match frontmatter_re content")
  case None
  then have n: "\<not> (\<exists>h r. content = u ''---\<newline>'' @ h @ u ''\<newline>---\<newline>'' @ r)"
    using frontmatter_match_None [of content] by simp
  have "errors (snd (validate_file fs p v)) = errors v @ [BadFrontmatter p]"
    using assms None by (simp add: validate_file_def Let_def bump_defs)
  with n show ?thesis by blast
next
  case (Some m)
  then have e: "\<exists>h r. content = u ''---\<newline>'' @ h @ u ''\<newline>---\<newline>'' @ r"
    using frontmatter_match_None [of content] by simp
  have a: "errors (snd (validate_file fs p v)) \<noteq> errors v @ [BadFrontmatter p]"
    by (simp add: validate_file_parsed [OF assms Some] Let_def)
  have b: "snd (fst (validate_file fs p v)) = parse_frontmatter h"
    if "content = u ''---\<newline>'' @ h @ u ''\<newline>---\<newline>'' @ r"
      and "u ''---'' \<notin> set (tl (split_lines h))" for h r
  proof -
    from frontmatter_match_first [OF that(2), of r] that(1) Some
    have "m = \<lparr>group1 = Some h, after = r\<rparr>" by simp
    then show ?thesis
      by (simp add: validate_file_parsed [OF assms Some] Let_def group_1_def group_text_def)
  qed
  from e a b show ?thesis by blast
qed

text \<open>
  The result of \<open>validate_file\<close> when the header block is not found (lines 45-48).
\<close>

lemma malformed_header_result:
  assumes "read_text fs p = Inr content" and "startswith content (u ''---'')"
    and "\<not> (\<exists>h r. content = u ''---\<newline>'' @ h @ u ''\<newline>---\<newline>'' @ r)"
  shows "validate_file fs p v =
     ((False, Map.empty),
      v\<lparr>errors := errors v @ [BadFrontmatter p],
        stats := (stats v)\<lparr>total_files := total_files (stats v) + 1,
                           invalid_files := invalid_files (stats v) + 1\<rparr>\<rparr>)"
proof -
  have "re_match frontmatter_re content = None"
    using frontmatter_match_None [of content] assms(3) by simp
  with assms(1,2) show ?thesis
    by (simp add: validate_file_def Let_def bump_defs)
qed

lemma match_terminated:
  "re_match frontmatter_re (u ''---\<newline>description: x\<newline>alwaysApply: true\<newline>---\<newline>'') =
   Some \<lparr>group1 = Some (u ''description: x\<newline>alwaysApply: true''), after = []\<rparr>"
  by (simp add: eval_re eval_defs)

lemma parse_terminated:
  "parse_description (u ''description: x\<newline>alwaysApply: true'') = PyStr (u ''x'')"
  "parse_alwaysApply (u ''description: x\<newline>alwaysApply: true'') = PyBool True"
  "parse_globs (u ''description: x\<newline>alwaysApply: true'') = PyNone"
  by (simp_all add: parse_description_def parse_alwaysApply_def parse_globs_def eval_re eval_defs)

lemma match_empty_block:
  "re_match frontmatter_re (u ''---\<newline>---\<newline>Body text'') = None"
  by (simp add: eval_re eval_defs)

text \<open>
  Claim C3, where the code departs from it.  The content \<open>---\<close>, \<open>description: x\<close>,
  \<open>alwaysApply: true\<close>, \<open>---\<close>, the last line ending the file without a line break, starts
  with the delimiter line and has a matching delimiter line that closes the header
  block; the claim has the block extracted.  \<open>validate_file\<close> returns invalid with the
  empty frontmatter, records the malformed-frontmatter error and counts one invalid
  file.  The same content followed by a line break is a valid file, with the warning
  for the empty body only.  The content \<open>---\<close>, \<open>---\<close>, \<open>Body text\<close>, whose closing delimiter
  line follows the opening one directly, is reported malformed in the same way.
\<close>

theorem closing_delimiter_at_end_of_file:
  "split_lines (u ''---\<newline>description: x\<newline>alwaysApply: true\<newline>---'') =
     [u ''---'', u ''description: x'', u ''alwaysApply: true'', u ''---'']
   \<and> validate_file
        (one_file (u ''---\<newline>description: x\<newline>alwaysApply: true\<newline>---'')) rule_mdc (init []) =
      ((False, Map.empty),
       \<lparr>rules_dir = [], errors = [BadFrontmatter rule_mdc], warnings = [],
        stats = \<lparr>total_files = 1, valid_files = 0, invalid_files = 1,
                 files_without_description = 0, files_without_alwaysApply = 0,
                 files_with_invalid_yaml = 0\<rparr>\<rparr>)
   \<and> validate_file
        (one_file (u ''---\<newline>description: x\<newline>alwaysApply: true\<newline>---\<newline>'')) rule_mdc (init []) =
      ((True, [''description'' \<mapsto> PyStr (u ''x''), ''alwaysApply'' \<mapsto> PyBool True,
               ''globs'' \<mapsto> PyNone]),
       \<lparr>rules_dir = [], errors = [], warnings = [NoContentAfter rule_mdc],
        stats = \<lparr>total_files = 1, valid_files = 1, invalid_files = 0,
                 files_without_description = 0, files_without_alwaysApply = 0,
                 files_with_invalid_yaml = 0\<rparr>\<rparr>)
   \<and> split_lines (u ''---\<newline>---\<newline>Body text'') = [u ''---'', u ''---'', u ''Body text'']
   \<and> validate_file (one_file (u ''---\<newline>---\<newline>Body text'')) rule_mdc (init []) =
      ((False, Map.empty),
       \<lparr>rules_dir = [], errors = [BadFrontmatter rule_mdc], warnings = [],
        stats = \<lparr>total_files = 1, valid_files = 0, invalid_files = 1,
                 files_without_description = 0, files_without_alwaysApply = 0,
                 files_with_invalid_yaml = 0\<rparr>\<rparr>)"
proof -
  let ?C = "u ''---\<newline>description: x\<newline>alwaysApply: true\<newline>---''"
  let ?D = "u ''---\<newline>description: x\<newline>alwaysApply: true\<newline>---\<newline>''"
  let ?E = "u ''---\<newline>---\<newline>Body text''"
  have l: "split_lines ?C = [u ''---'', u ''description: x'', u ''alwaysApply: true'', u ''---'']"
    "split_lines ?E = [u ''---'', u ''---'', u ''Body text'']"
    by simp_all
  have c: "validate_file (one_file ?C) rule_mdc (init []) =
      ((False, Map.empty),
       \<lparr>rules_dir = [], errors = [BadFrontmatter rule_mdc], warnings = [],
        stats = \<lparr>total_files = 1, valid_files = 0, invalid_files = 1,
                 files_without_description = 0, files_without_alwaysApply = 0,
                 files_with_invalid_yaml = 0\<rparr>\<rparr>)"
    using match_unterminated
    by (simp add: validate_file_def Let_def bump_defs one_file_def init_def startswith_def)
  have e: "validate_file (one_file ?E) rule_mdc (init []) =
      ((False, Map.empty),
       \<lparr>rules_dir = [], errors = [BadFrontmatter rule_mdc], warnings = [],
        stats = \<lparr>total_files = 1, valid_files = 0, invalid_files = 1,
                 files_without_description = 0, files_without_alwaysApply = 0,
                 files_with_invalid_yaml = 0\<rparr>\<rparr>)"
    using match_empty_block
    by (simp add: validate_file_def Let_def bump_defs one_file_def init_def startswith_def)
  have r: "read_text (one_file ?D) rule_mdc = Inr ?D"
    by (simp add: one_file_def)
  have s: "startswith ?D (u ''---'')"
    by (simp add: startswith_def)
  have d: "validate_file (one_file ?D) rule_mdc (init []) =
      ((True, [''description'' \<mapsto> PyStr (u ''x''), ''alwaysApply'' \<mapsto> PyBool True,
               ''globs'' \<mapsto> PyNone]),
       \<lparr>rules_dir = [], errors = [], warnings = [NoContentAfter rule_mdc],
        stats = \<lparr>total_files = 1, valid_files = 1, invalid_files = 0,
                 files_without_description = 0, files_without_alwaysApply = 0,
                 files_with_invalid_yaml = 0\<rparr>\<rparr>)"
    using parse_terminated validate_file_parsed [OF r s match_terminated, of "init []"]
    by (simp add: Let_def parse_frontmatter_def group_1_def group_text_def strip_def isspace_def
        init_def)
  from l c d e show ?thesis by (simp only: simp_thms)
qed

section \<open>Searching as a scan, and blanks before a value\<close>

lemma search_from_first_some:
  "search_from r p s = first_some (map (\<lambda>(q, t). first_match r (q, t, None)) (starts p s))"
proof (induction s arbitrary: p)
  case Nil
  show ?case by (cases "first_match r (p, [], None)") simp_all
next
  case (Cons x xs)
  show ?case using Cons.IH [of "Some x"]
    by (cases "first_match r (p, x # xs, None)") simp_all
qed

lemma star_greedy_split:
  assumes "\<forall>x \<in> set a. cls_ok c x" and "t = [] \<or> \<not> cls_ok c (hd t)"
  shows "star_greedy c p (a @ t) g =
     (prev p a, t, g) # map (\<lambda>k. (prev p (take k a), drop k a @ t, g)) (rev [0..<length a])"
proof -
  have tw: "takeWhile (cls_ok c) (a @ t) = a"
  proof (cases t)
    case Nil
    with assms(1) show ?thesis by (simp add: takeWhile_eq_all_conv)
  next
    case (Cons y ys)
    with assms show ?thesis by (simp add: takeWhile_tail)
  qed
  have "map (\<lambda>k. (prev p (take k (a @ t)), drop k (a @ t), g)) [0..<length a] =
        map (\<lambda>k. (prev p (take k a), drop k a @ t, g)) [0..<length a]"
    by (rule map_cong) auto
  then show ?thesis
    by (simp add: star_greedy_upt tw rev_map)
qed

lemma seq_star_space:
  assumes "\<And>q s g. s \<noteq> [] \<Longrightarrow> isspace (hd s) \<Longrightarrow> run R (q, s, g) = []"
  shows "run (Seq (Star Space) R) (p, t, g) =
         run R (prev p (takeWhile isspace t), dropWhile isspace t, g)"
proof -
  let ?a = "takeWhile isspace t" and ?v = "dropWhile isspace t"
  have a: "\<forall>x \<in> set ?a. cls_ok Space x"
    by (auto dest: set_takeWhileD)
  have v: "?v = [] \<or> \<not> cls_ok Space (hd ?v)"
    using hd_dropWhile [of isspace t] by auto
  have z: "run R (prev p (take k ?a), drop k ?a @ ?v, g) = []" if "k < length ?a" for k
  proof (rule assms)
    from that show "drop k ?a @ ?v \<noteq> []" by simp
    from that have "hd (drop k ?a @ ?v) = ?a ! k"
      by (simp add: hd_append hd_drop_conv_nth)
    moreover have "?a ! k \<in> set ?a" using that by simp
    ultimately show "isspace (hd (drop k ?a @ ?v))"
      by (metis set_takeWhileD)
  qed
  have sg: "star_greedy Space p t g =
      (prev p ?a, ?v, g) # map (\<lambda>k. (prev p (take k ?a), drop k ?a @ ?v, g)) (rev [0..<length ?a])"
    using star_greedy_split [OF a v, of p g] by simp
  have "concat (map (run R) (map (\<lambda>k. (prev p (take k ?a), drop k ?a @ ?v, g)) (rev [0..<length ?a]))) = []"
    using z by simp
  then show ?thesis
    by (simp only: run.simps sg list.map concat.simps append_Nil2)
qed

lemma star_greedy_set:
  "(q, t', g') \<in> set (star_greedy c p t g) \<Longrightarrow>
   \<exists>a. t = a @ t' \<and> (\<forall>x \<in> set a. cls_ok c x) \<and> g' = g \<and> q = prev p a"
proof (induction t arbitrary: p)
  case Nil
  then show ?case by simp
next
  case (Cons x xs)
  from Cons.prems consider "cls_ok c x \<and> (q, t', g') \<in> set (star_greedy c (Some x) xs g)"
    | "q = p \<and> t' = x # xs \<and> g' = g"
    by (auto split: if_splits)
  then show ?case
  proof cases
    case 1
    with Cons.IH [of "Some x"] obtain a where
      "xs = a @ t'" "\<forall>x \<in> set a. cls_ok c x" "g' = g" "q = prev (Some x) a" by blast
    with 1 have "x # xs = (x # a) @ t' \<and> (\<forall>y \<in> set (x # a). cls_ok c y) \<and> g' = g \<and> q = prev p (x # a)"
      by simp
    then show ?thesis by blast
  next
    case 2
    then have "x # xs = [] @ t' \<and> (\<forall>y \<in> set []. cls_ok c y) \<and> g' = g \<and> q = prev p []"
      by simp
    then show ?thesis by blast
  qed
qed

section \<open>The \<open>alwaysApply\<close> field\<close>

lemma first_some_Cons:
  "first_some (x # xs) = (case x of None \<Rightarrow> first_some xs | Some y \<Rightarrow> Some y)"
  by (cases x) simp_all

lemma first_some_filter:
  "first_some (map (\<lambda>x. if P x then f x else None) xs) = first_some (map f (filter P xs))"
  by (induction xs) (auto simp: first_some_Cons split: option.splits)

lemma first_some_map_option:
  "map_option h (first_some xs) = first_some (map (map_option h) xs)"
  by (induction xs rule: first_some.induct) auto

lemma space_not_letter: "isspace c \<Longrightarrow> \<not> ci_eq 116 c \<and> \<not> ci_eq 102 c"
  by (auto simp: isspace_def ci_eq_def)

lemma run_Seq_Eol_Eps:
  "run (Seq Eol Eps) (q, s, g) = (if at_eol s then [(q, s, g)] else [])"
  by (cases s) (auto simp: at_eol_def)

lemma accepts_true_lower: "accepts (map ci_cls (u ''true'')) v \<Longrightarrow> lower (take 4 v) = u ''true''"
proof -
  assume a: "accepts (map ci_cls (u ''true'')) v"
  then obtain a b c d r where v: "v = a # b # c # d # r"
    by (cases v; simp; cases "tl v"; simp; cases "tl (tl v)"; simp; cases "tl (tl (tl v))"; simp)
  with a show ?thesis
    by (auto simp: ci_cls_def lower_char_def ci_eq_def lower_def)
qed

lemma run_bool_word:
  "run (Seq (Grp (Alt (chrs (map ci_cls (u ''true''))) (chrs (map ci_cls (u ''false''))))) (Seq Eol Eps))
       (q, v, g) =
     (if accepts (map ci_cls (u ''true'')) v \<and> at_eol (drop 4 v)
      then [(prev q (take 4 v), drop 4 v, Some (take 4 v))] else [])
     @ (if accepts (map ci_cls (u ''false'')) v \<and> at_eol (drop 5 v)
        then [(prev q (take 5 v), drop 5 v, Some (take 5 v))] else [])"
proof -
  have lt: "length (map ci_cls (u ''true'')) = 4" and lf: "length (map ci_cls (u ''false'')) = 5"
    by simp_all
  have t: "accepts (map ci_cls (u ''true'')) v \<Longrightarrow> length v - (length v - 4) = 4"
    using accepts_length [of "map ci_cls (u ''true'')" v] by (simp only: lt) simp
  have f: "accepts (map ci_cls (u ''false'')) v \<Longrightarrow> length v - (length v - 5) = 5"
    using accepts_length [of "map ci_cls (u ''false'')" v] by (simp only: lf) simp
  have sg: "run (Seq (Grp r) b) st = concat (map (run b) (run (Grp r) st))" for r b st
    by simp
  show ?thesis
    by (simp only: sg run.simps(7) run.simps(6) run_chrs lt lf run_Seq_Eol_Eps)
       (auto simp: t f run_Seq_Eol_Eps simp del: run.simps)
qed

lemma always_apply_re_unfold:
  "always_apply_re = Seq Bol (Seq (chrs (map ci_cls (u ''alwaysApply:'')))
     (Seq (Star Space)
       (Seq (Grp (Alt (chrs (map ci_cls (u ''true''))) (chrs (map ci_cls (u ''false'')))))
         (Seq Eol Eps))))"
  by (simp only: always_apply_re_def seqs.simps litsI_def)

lemma bool_word_not_space:
  assumes "s \<noteq> []" and "isspace (hd s)"
  shows "run (Seq (Grp (Alt (chrs (map ci_cls (u ''true''))) (chrs (map ci_cls (u ''false'')))))
              (Seq Eol Eps)) (q, s, g) = []"
proof -
  from assms obtain x xs where s: "s = x # xs" "isspace x" by (cases s) auto
  then have "\<not> accepts (map ci_cls (u ''true'')) s" "\<not> accepts (map ci_cls (u ''false'')) s"
    using space_not_letter [of x] by (simp_all add: ci_cls_def lower_char_def)
  then show ?thesis by (simp only: run_bool_word) simp
qed

lemma run_always_apply:
  "run always_apply_re (q, t, g) =
     (if (q = None \<or> q = Some NL) \<and> accepts (map ci_cls (u ''alwaysApply:'')) t then
        run (Seq (Grp (Alt (chrs (map ci_cls (u ''true''))) (chrs (map ci_cls (u ''false'')))))
              (Seq Eol Eps))
          (prev (prev q (take 12 t)) (takeWhile isspace (drop 12 t)),
           dropWhile isspace (drop 12 t), g)
      else [])"
proof -
  let ?Rb = "Seq (Grp (Alt (chrs (map ci_cls (u ''true''))) (chrs (map ci_cls (u ''false''))))) (Seq Eol Eps)"
  have l: "length (map ci_cls (u ''alwaysApply:'')) = 12" by simp
  have a: "run always_apply_re (q, t, g) =
      (if q = None \<or> q = Some NL
       then run (Seq (chrs (map ci_cls (u ''alwaysApply:''))) (Seq (Star Space) ?Rb)) (q, t, g) else [])"
    by (simp only: always_apply_re_unfold run_Seq_Bol)
  have b: "run (Seq (chrs (map ci_cls (u ''alwaysApply:''))) (Seq (Star Space) ?Rb)) (q, t, g) =
      (if accepts (map ci_cls (u ''alwaysApply:'')) t
       then run (Seq (Star Space) ?Rb) (prev q (take 12 t), drop 12 t, g) else [])"
    by (simp only: run_Seq_chrs l)
  have c: "run (Seq (Star Space) ?Rb) (prev q (take 12 t), drop 12 t, g) =
      run ?Rb (prev (prev q (take 12 t)) (takeWhile isspace (drop 12 t)),
               dropWhile isspace (drop 12 t), g)"
    by (rule seq_star_space) (rule bool_word_not_space)
  show ?thesis
    by (cases "q = None \<or> q = Some NL"; cases "accepts (map ci_cls (u ''alwaysApply:'')) t")
       (simp_all only: a b c if_True if_False simp_thms)
qed

lemma always_apply_value:
  "map_option (\<lambda>m. lower (group_1 m) = u ''true'') (first_match always_apply_re (q, t, None)) =
     (if (q = None \<or> q = Some NL) \<and> accepts (map ci_cls (u ''alwaysApply:'')) t
      then bool_value (drop 12 t) else None)"
proof -
  let ?v = "dropWhile isspace (drop 12 t)"
  have f: "accepts (map ci_cls (u ''false'')) ?v \<Longrightarrow> lower (take 5 ?v) \<noteq> u ''true''"
  proof -
    assume "accepts (map ci_cls (u ''false'')) ?v"
    then have "5 \<le> length ?v" using accepts_length [of "map ci_cls (u ''false'')" ?v] by simp
    then have "length (lower (take 5 ?v)) = 5" by (simp add: lower_def)
    then show ?thesis by auto
  qed
  show ?thesis
    using accepts_true_lower [of ?v] f
    by (simp only: first_match_def run_always_apply run_bool_word bool_value_def Let_def)
       (auto simp: group_1_def group_text_def simp del: accepts.simps u_Cons u_Nil)
qed

lemma parse_alwaysApply_scan: "parse_alwaysApply hdr = scan_alwaysApply hdr"
proof -
  let ?val = "\<lambda>m. lower (group_1 m) = u ''true''"
  let ?P = "\<lambda>x. (fst x = None \<or> fst x = Some NL) \<and> accepts (map ci_cls (u ''alwaysApply:'')) (snd x)"
  let ?f = "\<lambda>x. bool_value (drop 12 (snd x))"
  have l: "length (map ci_cls (u ''alwaysApply:'')) = 12" by simp
  have fe: "map_option ?val ((\<lambda>(q, t). first_match always_apply_re (q, t, None)) x) =
      (if ?P x then ?f x else None)" for x
    by (cases x) (simp only: always_apply_value prod.case fst_conv snd_conv)
  have "parse_alwaysApply hdr =
      (case map_option ?val (re_search always_apply_re hdr) of None \<Rightarrow> PyNone | Some b \<Rightarrow> PyBool b)"
    by (simp add: parse_alwaysApply_def split: option.splits)
  also have "map_option ?val (re_search always_apply_re hdr) =
      first_some (map (\<lambda>x. if ?P x then ?f x else None) (starts None hdr))"
    by (simp only: re_search_def search_from_first_some first_some_map_option map_map comp_def fe)
  also have "\<dots> = first_some (map ?f (filter ?P (starts None hdr)))"
    by (rule first_some_filter)
  also have "\<dots> = first_some (map bool_value (after_key (map ci_cls (u ''alwaysApply:'')) hdr))"
    by (simp only: after_key_def l map_map comp_def case_prod_unfold)
  finally show ?thesis by (simp only: scan_alwaysApply_def)
qed

text \<open>
  Claim C5, as the code has it.  The \<open>alwaysApply\<close> field is read at the first place
  where the key \<open>alwaysApply:\<close>, in any case, stands at the beginning of a line and is
  followed by blanks (line breaks among them, so the value may stand on a later line),
  then \<open>true\<close> or \<open>false\<close> in any case, then the end of a line; the field is absent when
  there is no such place.  For a file whose header block is found, an absent field
  makes the file invalid, records the missing-alwaysApply error and adds exactly 1 to
  \<open>files_without_alwaysApply\<close>; a present field leaves that counter alone.
\<close>

theorem alwaysApply_scan:
  "parse_alwaysApply hdr = scan_alwaysApply hdr
   \<and> (read_text fs p = Inr content \<and> startswith content (u ''---'')
        \<and> re_match frontmatter_re content = Some m \<and> scan_alwaysApply (group_1 m) = PyNone
      \<longrightarrow> snd (fst (validate_file fs p v)) ''alwaysApply'' = Some PyNone
        \<and> \<not> fst (fst (validate_file fs p v))
        \<and> (\<exists>es. errors (snd (validate_file fs p v)) = errors v @ es @ [MissingAlwaysApply p])
        \<and> files_without_alwaysApply (stats (snd (validate_file fs p v))) =
            files_without_alwaysApply (stats v) + 1)
   \<and> (read_text fs p = Inr content \<and> startswith content (u ''---'')
        \<and> re_match frontmatter_re content = Some m \<and> scan_alwaysApply (group_1 m) = PyBool b
      \<longrightarrow> snd (fst (validate_file fs p v)) ''alwaysApply'' = Some (PyBool b)
        \<and> files_without_alwaysApply (stats (snd (validate_file fs p v))) =
            files_without_alwaysApply (stats v))"
proof -
  have a: "parse_alwaysApply hdr = scan_alwaysApply hdr"
    by (rule parse_alwaysApply_scan)
  have b: "snd (fst (validate_file fs p v)) ''alwaysApply'' = Some PyNone
        \<and> \<not> fst (fst (validate_file fs p v))
        \<and> (\<exists>es. errors (snd (validate_file fs p v)) = errors v @ es @ [MissingAlwaysApply p])
        \<and> files_without_alwaysApply (stats (snd (validate_file fs p v))) =
            files_without_alwaysApply (stats v) + 1"
    if h: "read_text fs p = Inr content" "startswith content (u ''---'')"
      "re_match frontmatter_re content = Some m" and n: "scan_alwaysApply (group_1 m) = PyNone"
  proof -
    from n have "parse_alwaysApply (group_1 m) = PyNone"
      by (simp only: parse_alwaysApply_scan)
    then show ?thesis
      by (simp add: validate_file_parsed [OF h] Let_def parse_frontmatter_def)
  qed
  have c: "snd (fst (validate_file fs p v)) ''alwaysApply'' = Some (PyBool b)
        \<and> files_without_alwaysApply (stats (snd (validate_file fs p v))) =
            files_without_alwaysApply (stats v)"
    if h: "read_text fs p = Inr content" "startswith content (u ''---'')"
      "re_match frontmatter_re content = Some m" and n: "scan_alwaysApply (group_1 m) = PyBool b"
  proof -
    from n have "parse_alwaysApply (group_1 m) = PyBool b"
      by (simp only: parse_alwaysApply_scan)
    then show ?thesis
      by (simp add: validate_file_parsed [OF h] Let_def parse_frontmatter_def)
  qed
  from a b c show ?thesis by blast
qed

lemma scan_no_key: "scan_alwaysApply (u ''description: x'') = PyNone"
  by (simp add: scan_alwaysApply_def after_key_def ci_cls_def lower_char_def ci_eq_def)

lemma match_description_only:
  "re_match frontmatter_re (u ''---\<newline>description: x\<newline>---\<newline>Body'') =
     Some \<lparr>group1 = Some (u ''description: x''), after = u ''Body''\<rparr>"
  by (simp add: eval_re eval_defs)

theorem alwaysApply_scan_witness:
  "scan_alwaysApply (u ''description: x'') = PyNone
   \<and> snd (fst (validate_file (one_file (u ''---\<newline>description: x\<newline>---\<newline>Body'')) rule_mdc (init [])))
        ''alwaysApply'' = Some PyNone
   \<and> \<not> fst (fst (validate_file (one_file (u ''---\<newline>description: x\<newline>---\<newline>Body'')) rule_mdc (init [])))
   \<and> files_without_alwaysApply (stats (snd (validate_file
        (one_file (u ''---\<newline>description: x\<newline>---\<newline>Body'')) rule_mdc (init [])))) = 1"
proof -
  let ?C = "u ''---\<newline>description: x\<newline>---\<newline>Body''"
  have r: "read_text (one_file ?C) rule_mdc = Inr ?C"
    by (simp add: one_file_def)
  have s: "startswith ?C (u ''---'')"
    by (simp add: startswith_def)
  have g: "scan_alwaysApply (group_1 \<lparr>group1 = Some (u ''description: x''), after = u ''Body''\<rparr>) = PyNone"
    using scan_no_key by (simp add: group_1_def group_text_def)
  have z: "files_without_alwaysApply (stats (init [])) = 0"
    by (simp add: init_def)
  show ?thesis
    using r s g z scan_no_key match_description_only
      alwaysApply_scan [of "[]" "one_file ?C" rule_mdc ?C
        "\<lparr>group1 = Some (u ''description: x''), after = u ''Body''\<rparr>" "init []" True]
    by simp
qed

lemma match_value_on_next_line:
  "re_match frontmatter_re (u ''---\<newline>description: x\<newline>alwaysApply:\<newline>true\<newline>---\<newline>Body'') =
     Some \<lparr>group1 = Some (u ''description: x\<newline>alwaysApply:\<newline>true''), after = u ''Body''\<rparr>"
  by (simp add: eval_re eval_defs)

lemma parse_value_on_next_line:
  "parse_alwaysApply (u ''description: x\<newline>alwaysApply:\<newline>true'') = PyBool True"
  by (simp add: parse_alwaysApply_def eval_re eval_defs)

lemma parse_description_x:
  "parse_description (u ''description: x\<newline>alwaysApply:\<newline>true'') = PyStr (u ''x'')"
  by (simp add: parse_description_def eval_re eval_defs)

text \<open>
  Against claim C5 as stated: a header in which the key and its value stand on two
  lines.  No line of the header has the key with a truth value, and the field is read
  as \<open>True\<close> (and the file is valid).
\<close>

theorem value_on_next_line_counterexample:
  "filter single_line_bool (split_lines (u ''description: x\<newline>alwaysApply:\<newline>true'')) = []
   \<and> snd (fst (validate_file
        (one_file (u ''---\<newline>description: x\<newline>alwaysApply:\<newline>true\<newline>---\<newline>Body''))
        rule_mdc (init []))) ''alwaysApply'' = Some (PyBool True)
   \<and> fst (fst (validate_file
        (one_file (u ''---\<newline>description: x\<newline>alwaysApply:\<newline>true\<newline>---\<newline>Body''))
        rule_mdc (init [])))"
proof -
  let ?C = "u ''---\<newline>description: x\<newline>alwaysApply:\<newline>true\<newline>---\<newline>Body''"
  have r: "read_text (one_file ?C) rule_mdc = Inr ?C"
    by (simp add: one_file_def)
  have s: "startswith ?C (u ''---'')"
    by (simp add: startswith_def)
  have l: "filter single_line_bool (split_lines (u ''description: x\<newline>alwaysApply:\<newline>true'')) = []"
    by (simp add: single_line_bool_def ci_cls_def lower_char_def ci_eq_def isspace_def)
  show ?thesis
    using l parse_value_on_next_line parse_description_x
      validate_file_parsed [OF r s match_value_on_next_line, of "init []"]
    by (simp add: Let_def parse_frontmatter_def group_1_def group_text_def strip_def isspace_def)
qed

section \<open>The \<open>globs\<close> field\<close>

lemma dropWhile_spaces_append:
  "\<forall>x \<in> set a. isspace x \<Longrightarrow> dropWhile isspace (a @ t) = dropWhile isspace t"
  by (induction a) auto

lemma startswith_single: "startswith s [c] \<longleftrightarrow> s \<noteq> [] \<and> hd s = c"
  by (cases s) (auto simp: startswith_def)

lemma after_spaces_not:
  assumes "\<not> startswith (dropWhile isspace t) [c]" and "\<not> isspace c"
    and "t = a @ t'" and "\<forall>x \<in> set a. isspace x"
  shows "\<not> startswith t' [c]"
proof
  assume s: "startswith t' [c]"
  then have "dropWhile isspace t' = t'"
    using assms(2) by (cases t') (auto simp: startswith_single)
  with assms(3,4) have "dropWhile isspace t = t'"
    by (simp add: dropWhile_spaces_append)
  with s assms(1) show False by simp
qed

lemma run_Seq_Chr_Lit:
  "run (Seq (Chr (Lit c)) R) (q, s, g) =
     (if startswith s [c] then run R (Some c, tl s, g) else [])"
  by (cases s) (auto simp: startswith_def)

lemma concat_map_Nil: "(\<And>x. x \<in> set xs \<Longrightarrow> f x = []) \<Longrightarrow> concat (map f xs) = []"
  by simp

lemma run_globs_simple_rest_empty:
  assumes "\<not> startswith (dropWhile isspace t) [91]" and "\<not> startswith (dropWhile isspace t) [93]"
  shows "run (seqs [Star Space, Opt (Lit 91), Star Space, Chr (Lit 93)]) (p, t, g) = []"
proof -
  have s91: "\<not> isspace 91" and s93: "\<not> isspace 93" by (simp_all add: isspace_def)
  have inner: "run (Seq (Opt (Lit 91)) (Seq (Star Space) (Seq (Chr (Lit 93)) Eps))) st = []"
    if m: "st \<in> set (star_greedy Space p t g)" for st
  proof -
    obtain q t' g' where st: "st = (q, t', g')" by (cases st) auto
    with m obtain a where a: "t = a @ t'" "\<forall>x \<in> set a. isspace x"
      using star_greedy_set [of q t' g' Space p t g] by auto
    have n91: "\<not> startswith t' [91]"
      using after_spaces_not [OF assms(1) s91 a] .
    have o: "run (Opt (Lit 91)) (q, t', g') = [(q, t', g')]"
      using n91 by (cases t') (auto simp: Opt_def startswith_def)
    have k: "run (Seq (Chr (Lit 93)) Eps) st' = []"
      if m': "st' \<in> set (star_greedy Space q t' g')" for st'
    proof -
      obtain q' t'' g'' where st': "st' = (q', t'', g'')" by (cases st') auto
      with m' obtain a' where a': "t' = a' @ t''" "\<forall>x \<in> set a'. isspace x"
        using star_greedy_set [of q' t'' g'' Space q t' g'] by auto
      have "t = (a @ a') @ t''" "\<forall>x \<in> set (a @ a'). isspace x"
        using a a' by auto
      from after_spaces_not [OF assms(2) s93 this]
      show ?thesis by (simp only: st' run_Seq_Chr_Lit if_False)
    qed
    have "run (Seq (Star Space) (Seq (Chr (Lit 93)) Eps)) (q, t', g') = []"
      using k by (simp del: run.simps(5) add: run.simps(5) [of "Star Space"])
    then show ?thesis
      by (simp only: st run.simps(5) [of "Opt (Lit 91)"] o list.map concat.simps append_Nil2)
  qed
  show ?thesis
    using inner by (simp del: run.simps(5) add: run.simps(5) [of "Star Space"])
qed

lemma bracket_not_space:
  assumes "s \<noteq> []" and "isspace (hd s)"
  shows "run (Seq (Chr (Lit 91)) R) (q, s, g) = []"
proof -
  have "hd s \<noteq> 91" using assms(2) by (auto simp: isspace_def)
  with assms(1) show ?thesis by (cases s) auto
qed

lemma run_globs_rest_empty:
  assumes "\<not> startswith (dropWhile isspace t) [91]"
  shows "run (seqs [Star Space, Chr (Lit 91), Grp (Lazy Any), Chr (Lit 93)]) (p, t, g) = []"
proof -
  have "run (seqs [Star Space, Chr (Lit 91), Grp (Lazy Any), Chr (Lit 93)]) (p, t, g) =
        run (Seq (Chr (Lit 91)) (seqs [Grp (Lazy Any), Chr (Lit 93)]))
          (prev p (takeWhile isspace t), dropWhile isspace t, g)"
    unfolding seqs.simps by (rule seq_star_space) (rule bracket_not_space)
  with assms show ?thesis by (simp only: run_Seq_Chr_Lit if_False)
qed

lemma after_key_member:
  "(q, t) \<in> set (starts None s) \<Longrightarrow> q = None \<or> q = Some NL \<Longrightarrow> accepts cs t \<Longrightarrow>
   drop (length cs) t \<in> set (after_key cs s)"
  by (force simp: after_key_def)

lemma parse_globs_no_bracket:
  assumes "\<forall>t \<in> set (after_key (map Lit (u ''globs:'')) hdr).
     \<not> startswith (dropWhile isspace t) [91] \<and> \<not> startswith (dropWhile isspace t) [93]"
  shows "parse_globs hdr = PyNone"
proof -
  let ?K = "map Lit (u ''globs:'')"
  have a: "first_match globs_re (q, t, None) = None" and b: "first_match globs_simple_re (q, t, None) = None"
    if m: "(q, t) \<in> set (starts None hdr)" for q t
  proof -
    show "first_match globs_re (q, t, None) = None"
    proof (cases "(q = None \<or> q = Some NL) \<and> accepts ?K t")
      case False
      then show ?thesis unfolding globs_re_keyed using run_keyed_empty by (simp only: first_match_None)
    next
      case True
      then have "drop (length ?K) t \<in> set (after_key ?K hdr)"
        using after_key_member [OF m] by blast
      with assms have "\<not> startswith (dropWhile isspace (drop (length ?K) t)) [91]" by blast
      then have "run (seqs [Star Space, Chr (Lit 91), Grp (Lazy Any), Chr (Lit 93)])
          (prev q (take (length ?K) t), drop (length ?K) t, None) = []"
        by (rule run_globs_rest_empty)
      then show ?thesis
        unfolding globs_re_keyed by (simp only: first_match_None run_Seq_Bol run_Seq_chrs if_True if_False split: if_splits) simp
    qed
    show "first_match globs_simple_re (q, t, None) = None"
    proof (cases "(q = None \<or> q = Some NL) \<and> accepts ?K t")
      case False
      then show ?thesis unfolding globs_simple_re_keyed using run_keyed_empty by (simp only: first_match_None)
    next
      case True
      then have "drop (length ?K) t \<in> set (after_key ?K hdr)"
        using after_key_member [OF m] by blast
      with assms have "\<not> startswith (dropWhile isspace (drop (length ?K) t)) [91]"
        "\<not> startswith (dropWhile isspace (drop (length ?K) t)) [93]" by blast+
      then have "run (seqs [Star Space, Opt (Lit 91), Star Space, Chr (Lit 93)])
          (prev q (take (length ?K) t), drop (length ?K) t, None) = []"
        by (rule run_globs_simple_rest_empty)
      then show ?thesis
        unfolding globs_simple_re_keyed by (simp only: first_match_None run_Seq_Bol run_Seq_chrs if_True if_False split: if_splits) simp
    qed
  qed
  have "re_search globs_re hdr = None" "re_search globs_simple_re hdr = None"
    using a b by (auto simp: re_search_def search_from_None)
  then show ?thesis by (simp add: parse_globs_def)
qed

lemma run_bracket_body:
  assumes "93 \<notin> set body"
  shows "\<exists>others. run (Seq (Grp (Lazy Any)) (Seq (Chr (Lit 93)) Eps)) (p, body @ 93 # post, g) =
           (Some 93, post, Some body) # others"
proof -
  let ?s = "body @ 93 # post"
  let ?f = "\<lambda>k. run (Seq (Chr (Lit 93)) Eps) (prev p (take k ?s), drop k ?s, Some (take k ?s))"
  have z: "?f j = []" if "j < length body" for j
  proof -
    have "drop j ?s = drop j body @ 93 # post" using that by simp
    moreover have "drop j body \<noteq> []" "hd (drop j body) = body ! j"
      using that by (simp_all add: hd_drop_conv_nth)
    moreover have "body ! j \<noteq> 93" using that assms by (metis nth_mem)
    ultimately have "\<not> startswith (drop j ?s) [93]"
      by (simp add: startswith_single)
    then show ?thesis by (simp only: run_Seq_Chr_Lit if_False)
  qed
  have k: "?f (length body) = [(Some 93, post, Some body)]"
    by simp
  have "length body < Suc (length ?s)" by simp
  from concat_map_upt_first [of "length body" "Suc (length ?s)" ?f, OF this z]
  have "concat (map ?f [0..<Suc (length ?s)]) =
      (Some 93, post, Some body) # concat (map ?f [Suc (length body)..<Suc (length ?s)])"
    by (simp only: k append_Cons append_Nil)
  then show ?thesis by (simp only: run_lazy_any) blast
qed

lemma first_match_bracketed:
  assumes "q = None \<or> q = Some NL" and "\<forall>c \<in> set ws. isspace c" and "93 \<notin> set body"
  shows "first_match globs_re (q, u ''globs:'' @ ws @ [91] @ body @ [93] @ post, None) =
         Some \<lparr>group1 = Some body, after = post\<rparr>"
proof -
  let ?K = "map Lit (u ''globs:'')"
  let ?t = "u ''globs:'' @ ws @ [91] @ body @ [93] @ post"
  have acc: "accepts ?K ?t" by (simp only: accepts_Lit) (simp add: startswith_def)
  have d: "drop (length ?K) ?t = ws @ 91 # body @ 93 # post" by simp
  have dw: "dropWhile isspace (ws @ 91 # body @ 93 # post) = 91 # body @ 93 # post"
    using assms(2) by (simp add: dropWhile_spaces_append isspace_def)
  have "run globs_re (q, ?t, None) =
      run (seqs [Star Space, Chr (Lit 91), Grp (Lazy Any), Chr (Lit 93)])
        (prev q (take (length ?K) ?t), ws @ 91 # body @ 93 # post, None)"
    using assms(1) acc unfolding globs_re_keyed
    by (simp only: run_Seq_Bol run_Seq_chrs d if_True)
  also have "\<dots> = run (Seq (Chr (Lit 91)) (seqs [Grp (Lazy Any), Chr (Lit 93)]))
        (prev (prev q (take (length ?K) ?t)) (takeWhile isspace (ws @ 91 # body @ 93 # post)),
         dropWhile isspace (ws @ 91 # body @ 93 # post), None)"
    unfolding seqs.simps by (rule seq_star_space) (rule bracket_not_space)
  also have "\<dots> = run (Seq (Grp (Lazy Any)) (Seq (Chr (Lit 93)) Eps)) (Some 91, body @ 93 # post, None)"
    by (simp only: dw run_Seq_Chr_Lit seqs.simps) (simp add: startswith_def)
  finally obtain others where
    "run globs_re (q, ?t, None) = (Some 93, post, Some body) # others"
    using run_bracket_body [OF assms(3), of "Some 91" post None] by auto
  then show ?thesis by (simp add: first_match_def)
qed

lemma parse_globs_bracketed:
  assumes "pre = [] \<or> last pre = NL"
    and "\<forall>l \<in> set (split_lines pre). \<not> startswith l (u ''globs:'')"
    and "\<forall>c \<in> set ws. isspace c" and "93 \<notin> set body"
  shows "parse_globs (pre @ u ''globs:'' @ ws @ [91] @ body @ [93] @ post) =
         PyList (if strip body = [] then [] else re_findall globs_item_re (strip body))"
proof -
  let ?t = "u ''globs:'' @ ws @ [91] @ body @ [93] @ post"
  have k: "\<forall>l \<in> set (split_lines pre). \<not> accepts (map Lit (u ''globs:'')) l"
    using assms(2) by (simp only: accepts_Lit)
  have "re_search globs_re (pre @ ?t) = search_from globs_re (prev None pre) ?t"
    unfolding re_search_def globs_re_keyed
    by (rule keyed_search_skip [OF assms(1) k globs_key_nl])
  also have "\<dots> = Some \<lparr>group1 = Some body, after = post\<rparr>"
    by (rule search_from_hit) (rule first_match_bracketed [OF bol_prev [OF assms(1)] assms(3,4)])
  finally show ?thesis
    by (simp add: parse_globs_def group_1_def group_text_def Let_def)
qed

text \<open>
  Claim C6, as the code has it.  When, at every line of the header that starts with
  \<open>globs:\<close>, the text after the key and after any blanks (line breaks among them) begins
  with neither \<open>[\<close> nor \<open>]\<close> (the block form, with dash items on the following lines,
  is such a text), no list is produced and the field is absent.  A bracketed list is
  read from \<open>[\<close> to the first \<open>]\<close> across line breaks: when the first line that starts
  with \<open>globs:\<close> goes on with blanks and \<open>[\<close>, the field is the list of the quoted items
  found before the next \<open>]\<close>, on however many lines they stand.
\<close>

theorem globs_across_lines:
  "((\<forall>t \<in> set (after_key (map Lit (u ''globs:'')) hdr).
        \<not> startswith (dropWhile isspace t) [91] \<and> \<not> startswith (dropWhile isspace t) [93])
      \<longrightarrow> parse_globs hdr = PyNone)
   \<and> ((pre = [] \<or> last pre = NL) \<and> (\<forall>l \<in> set (split_lines pre). \<not> startswith l (u ''globs:''))
        \<and> (\<forall>c \<in> set ws. isspace c) \<and> 93 \<notin> set body
      \<longrightarrow> parse_globs (pre @ u ''globs:'' @ ws @ [91] @ body @ [93] @ post) =
            PyList (if strip body = [] then [] else re_findall globs_item_re (strip body)))"
  using parse_globs_no_bracket [of hdr] parse_globs_bracketed [of pre ws body post]
  by blast

theorem globs_across_lines_witness:
  "parse_globs (u ''globs:\<newline>  - \"a\"'') = PyNone
   \<and> parse_globs (u ''globs: [\<newline>\"a\"\<newline>]'') = PyList [u ''a'']"
proof -
  have a: "\<forall>t \<in> set (after_key (map Lit (u ''globs:'')) (u ''globs:\<newline>  - \"a\"'')).
      \<not> startswith (dropWhile isspace t) [91] \<and> \<not> startswith (dropWhile isspace t) [93]"
    by (simp add: after_key_def startswith_def isspace_def)
  have b: "([] :: ustr) = [] \<or> last ([] :: ustr) = NL"
    "\<forall>l \<in> set (split_lines []). \<not> startswith l (u ''globs:'')"
    "\<forall>c \<in> set (u '' ''). isspace c" "93 \<notin> set (u ''\<newline>\"a\"\<newline>'')"
    by (simp_all add: startswith_def isspace_def)
  have s: "strip (u ''\<newline>\"a\"\<newline>'') = u ''\"a\"''"
    by (simp add: strip_def isspace_def)
  have f: "re_findall globs_item_re (u ''\"a\"'') = [u ''a'']"
    by (simp add: eval_re eval_defs)
  have "parse_globs (u ''globs:\<newline>  - \"a\"'') = PyNone"
    using a globs_across_lines [of "u ''globs:\<newline>  - \"a\"''" "[]" "u '' ''" "u ''\<newline>\"a\"\<newline>''" "[]"]
    by blast
  moreover have "parse_globs ([] @ u ''globs:'' @ u '' '' @ [91] @ u ''\<newline>\"a\"\<newline>'' @ [93] @ []) =
      PyList (if strip (u ''\<newline>\"a\"\<newline>'') = [] then []
              else re_findall globs_item_re (strip (u ''\<newline>\"a\"\<newline>'')))"
    using b globs_across_lines [of "u ''globs:\<newline>  - \"a\"''" "[]" "u '' ''" "u ''\<newline>\"a\"\<newline>''" "[]"]
    by blast
  ultimately show ?thesis
    using s f by simp
qed

text \<open>
  Against claim C6 as stated: a bracketed list written on four lines.  The parser
  produces the list of its two items.
\<close>

theorem globs_on_four_lines_counterexample:
  "split_lines (u ''globs: [\<newline>  \"*.ts\",\<newline>  \"*.js\"\<newline>]'') =
     [u ''globs: ['', u ''  \"*.ts\",'', u ''  \"*.js\"'', u '']'']
   \<and> parse_globs (u ''globs: [\<newline>  \"*.ts\",\<newline>  \"*.js\"\<newline>]'') = PyList [u ''*.ts'', u ''*.js'']"
  by (simp add: parse_globs_def eval_re eval_defs)

section \<open>A file laid out as the example\<close>

lemma split_lines_append:
  "split_lines (a @ NL # b) = split_lines a @ split_lines b"
proof (induction a)
  case Nil
  show ?case by simp
next
  case (Cons x a)
  obtain l ls where l: "split_lines a = l # ls"
    by (cases "split_lines a") auto
  show ?case using Cons.IH l by simp
qed

lemma split_lines_single: "NL \<notin> set l \<Longrightarrow> split_lines l = [l]"
  by (induction l) auto

lemma run_Seq_hd:
  "run a st = x # xs \<Longrightarrow> run b x = y # ys \<Longrightarrow> \<exists>zs. run (Seq a b) st = y # zs"
  by simp

lemma star_greedy_hd:
  assumes "\<forall>x \<in> set a. cls_ok c x" and "t = [] \<or> \<not> cls_ok c (hd t)"
  shows "\<exists>zs. star_greedy c p (a @ t) g = (prev p a, t, g) # zs"
  using star_greedy_split [OF assms] by blast

lemma strip_quoted: "strip (quoted d) = quoted d"
  by (simp add: strip_def quoted_def isspace_def)

lemma unquote: "startswith (quoted d) [34] \<and> endswith (quoted d) [34] \<and> slice_1_m1 (quoted d) = d"
  by (simp add: startswith_def endswith_def slice_1_m1_def quoted_def)

lemma description_re_keyed:
  "description_re = Seq Bol (Seq (chrs (map Lit (u ''description:'')))
      (Seq (Star Space) (Seq (Grp (Seq (Chr Dot) (Star Dot))) (Seq Eol Eps))))"
  by (simp only: description_re_def seqs.simps lits_def Plus_def)

lemma run_description_value:
  assumes "NL \<notin> set d"
  shows "\<exists>zs. run (Seq (Star Space) (Seq (Grp (Seq (Chr Dot) (Star Dot))) (Seq Eol Eps)))
           (p, 32 # quoted d @ NL # rest, g) = (Some 34, NL # rest, Some (quoted d)) # zs"
proof -
  let ?t = "quoted d @ NL # rest"
  have s: "\<exists>zs. run (Star Space) (p, [32] @ ?t, g) = (prev p [32], ?t, g) # zs"
    unfolding run.simps by (rule star_greedy_hd) (simp_all add: isspace_def quoted_def)
  have dots: "\<exists>zs. star_greedy Dot (Some 34) ((d @ [34]) @ NL # rest) g' = (prev (Some 34) (d @ [34]), NL # rest, g') # zs" for g'
    by (rule star_greedy_hd) (use assms in auto)
  have grp: "\<exists>zs. run (Grp (Seq (Chr Dot) (Star Dot))) (Some 32, ?t, g) =
      (Some 34, NL # rest, Some (quoted d)) # zs"
  proof -
    from dots [of g] obtain zs where
      "star_greedy Dot (Some 34) ((d @ [34]) @ NL # rest) g = (prev (Some 34) (d @ [34]), NL # rest, g) # zs"
      by blast
    then have "run (Seq (Chr Dot) (Star Dot)) (Some 32, ?t, g) = (Some 34, NL # rest, g) # zs"
      by (simp add: quoted_def)
    then show ?thesis by (simp add: quoted_def)
  qed
  have eol: "run (Seq Eol Eps) (Some 34, NL # rest, Some (quoted d)) = [(Some 34, NL # rest, Some (quoted d))]"
    by simp
  from grp obtain zs where g1: "run (Grp (Seq (Chr Dot) (Star Dot))) (Some 32, ?t, g) =
      (Some 34, NL # rest, Some (quoted d)) # zs" by blast
  from run_Seq_hd [OF g1 eol] obtain zs' where
    g2: "run (Seq (Grp (Seq (Chr Dot) (Star Dot))) (Seq Eol Eps)) (Some 32, ?t, g) =
      (Some 34, NL # rest, Some (quoted d)) # zs'" by blast
  from s obtain zs0 where s0: "run (Star Space) (p, 32 # ?t, g) = (Some 32, ?t, g) # zs0"
    by auto
  from run_Seq_hd [OF s0 g2] show ?thesis .
qed

lemma parse_description_quoted:
  assumes "NL \<notin> set d"
  shows "parse_description (u ''description: '' @ quoted d @ NL # rest) = PyStr d"
proof -
  let ?K = "map Lit (u ''description:'')"
  let ?t = "u ''description: '' @ quoted d @ NL # rest"
  have acc: "accepts ?K ?t" by (simp only: accepts_Lit) (simp add: startswith_def)
  have dr: "drop (length ?K) ?t = 32 # quoted d @ NL # rest" by simp
  from run_description_value [OF assms, of "prev None (take (length ?K) ?t)" rest None]
  obtain zs where "run description_re (None, ?t, None) = (Some 34, NL # rest, Some (quoted d)) # zs"
    using acc unfolding description_re_keyed
    by (simp only: run_Seq_Bol run_Seq_chrs dr if_True simp_thms) blast
  then have "re_search description_re ?t = Some \<lparr>group1 = Some (quoted d), after = NL # rest\<rparr>"
    unfolding re_search_def by (intro search_from_hit) (simp add: first_match_def)
  then show ?thesis
    using unquote [of d]
    by (simp add: parse_description_def group_1_def group_text_def strip_quoted Let_def)
qed

lemma always_apply_key_nl: "\<forall>c \<in> set (map ci_cls (u ''alwaysApply:'')). \<not> cls_ok c NL"
  by (simp add: ci_cls_def lower_char_def ci_eq_def)

lemma bool_value_word:
  "bool_value (32 # (if b then u ''true'' else u ''false'') @ NL # rest) = Some b"
  by (cases b) (simp_all add: bool_value_def isspace_def ci_cls_def lower_char_def ci_eq_def at_eol_def)

lemma parse_alwaysApply_header:
  assumes "NL \<notin> set d"
  shows "parse_alwaysApply (u ''description: '' @ quoted d @ [NL]
           @ u ''alwaysApply: '' @ (if b then u ''true'' else u ''false'') @ NL # rest) = PyBool b"
proof -
  let ?K = "map ci_cls (u ''alwaysApply:'')"
  let ?pre = "u ''description: '' @ quoted d @ [NL]"
  let ?t = "u ''alwaysApply: '' @ (if b then u ''true'' else u ''false'') @ NL # rest"
  have nl: "NL \<notin> set (u ''description: '' @ quoted d)"
    using assms by (simp add: quoted_def)
  have "?pre = (u ''description: '' @ quoted d) @ NL # []" by simp
  then have "split_lines ?pre = split_lines (u ''description: '' @ quoted d) @ split_lines []"
    by (simp only: split_lines_append)
  then have sl: "split_lines ?pre = [u ''description: '' @ quoted d, []]"
    by (simp only: split_lines_single [OF nl]) simp
  have k: "\<forall>l \<in> set (split_lines ?pre). \<not> accepts ?K l"
    by (simp only: sl) (simp add: ci_cls_def lower_char_def ci_eq_def)
  have last: "?pre = [] \<or> last ?pre = NL" by simp
  have acc: "accepts ?K ?t" by (simp add: ci_cls_def lower_char_def ci_eq_def)
  have dr: "drop 12 ?t = 32 # (if b then u ''true'' else u ''false'') @ NL # rest" by simp
  have "map_option (\<lambda>m. lower (group_1 m) = u ''true'') (first_match always_apply_re (Some NL, ?t, None))
        = Some b"
    using acc by (simp only: always_apply_value dr bool_value_word) simp
  then obtain m where m: "first_match always_apply_re (Some NL, ?t, None) = Some m"
    "(lower (group_1 m) = u ''true'') = b" by auto
  have "re_search always_apply_re (?pre @ ?t) = search_from always_apply_re (prev None ?pre) ?t"
    unfolding re_search_def always_apply_re_unfold
    by (rule keyed_search_skip [OF last k always_apply_key_nl])
  also have "prev None ?pre = Some NL" by (simp add: prev_def)
  also have "search_from always_apply_re (Some NL) ?t = Some m"
    by (rule search_from_hit) (rule m(1))
  finally have "re_search always_apply_re (?pre @ ?t) = Some m" .
  then have "parse_alwaysApply (?pre @ ?t) = PyBool b"
    using m(2) by (simp add: parse_alwaysApply_def)
  then show ?thesis by simp
qed

lemma globs_item_re_unfold:
  "globs_item_re = Seq (Chr (OneOf [34, 39]))
     (Seq (Grp (Seq (Chr (NoneOf [34, 39])) (Star (NoneOf [34, 39])))) (Seq (Chr (OneOf [34, 39])) Eps))"
  by (simp only: globs_item_re_def seqs.simps Plus_def)

lemma run_item:
  assumes "plain_item g"
  shows "\<exists>zs. run globs_item_re (p, quoted g @ rest, None) = (Some 34, rest, Some g) # zs"
proof -
  from assms obtain x g' where g: "g = x # g'" by (cases g) (auto simp: plain_item_def)
  have q: "\<forall>y \<in> set g'. cls_ok (NoneOf [34, 39]) y" "x \<noteq> 34" "x \<noteq> 39"
    using assms g by (auto simp: plain_item_def)
  from star_greedy_hd [of g' "NoneOf [34, 39]" "34 # rest" "Some x" None, OF q(1)]
  obtain zs where "star_greedy (NoneOf [34, 39]) (Some x) (g' @ 34 # rest) None =
      (prev (Some x) g', 34 # rest, None) # zs" by auto
  then show ?thesis
    using q(2,3) unfolding globs_item_re_unfold by (simp add: quoted_def g)
qed

lemma run_item_skip: "x \<noteq> 34 \<Longrightarrow> x \<noteq> 39 \<Longrightarrow> run globs_item_re (p, x # s, g) = []"
  unfolding globs_item_re_unfold by simp

lemma run_item_nil: "run globs_item_re (p, [], g) = []"
  unfolding globs_item_re_unfold by simp

lemma findall_quoted:
  assumes "plain_item g"
  shows "findall_from globs_item_re p (quoted g @ rest) = g # findall_from globs_item_re (Some 34) rest"
proof -
  from run_item [OF assms, of p rest] obtain zs where
    r: "run globs_item_re (p, quoted g @ rest, None) = (Some 34, rest, Some g) # zs" by blast
  have "length rest < length (quoted g @ rest)" by (simp add: quoted_def)
  from findall_hit [OF r this] show ?thesis by (simp add: group_text_def)
qed

lemma findall_items:
  "\<forall>g \<in> set gs. plain_item g \<Longrightarrow> findall_from globs_item_re p (join_items gs) = gs"
proof (induction gs arbitrary: p rule: join_items.induct)
  case 1
  show ?case by (simp add: findall_nil run_item_nil)
next
  case (2 g)
  then have "plain_item g" by simp
  from findall_quoted [OF this, of p "[]"] show ?case
    by (simp add: findall_nil run_item_nil)
next
  case (3 g h gs)
  then have g: "plain_item g" and r: "\<forall>x \<in> set (h # gs). plain_item x" by simp_all
  have "findall_from globs_item_re (Some 34) (44 # 32 # join_items (h # gs)) =
        findall_from globs_item_re (Some 32) (join_items (h # gs))"
    by (simp add: findall_skip run_item_skip)
  with findall_quoted [OF g, of p "u '', '' @ join_items (h # gs)"] "3.IH" [OF r, of "Some 32"]
  show ?case by simp
qed

lemma join_items_Nil: "join_items gs = [] \<longleftrightarrow> gs = []"
  by (induction gs rule: join_items.induct) (auto simp: quoted_def)

lemma join_items_ends:
  "gs \<noteq> [] \<Longrightarrow> \<exists>m. join_items gs = 34 # m @ [34]"
proof (induction gs rule: join_items.induct)
  case 1
  then show ?case by simp
next
  case (2 g)
  show ?case by (simp add: quoted_def)
next
  case (3 g h gs)
  then obtain m where "join_items (h # gs) = 34 # m @ [34]" by auto
  then have "join_items (g # h # gs) = 34 # (g @ [34, 44, 32, 34] @ m) @ [34]"
    by (simp add: quoted_def)
  then show ?case by blast
qed

lemma strip_join_items: "strip (join_items gs) = join_items gs"
proof (cases "gs = []")
  case True
  then show ?thesis by (simp add: strip_def)
next
  case False
  then obtain m where "join_items gs = 34 # m @ [34]" using join_items_ends by blast
  then show ?thesis by (simp add: strip_def isspace_def)
qed

lemma join_items_plain:
  "\<forall>g \<in> set gs. plain_item g \<Longrightarrow> 93 \<notin> set (join_items gs) \<and> NL \<notin> set (join_items gs)"
  by (induction gs rule: join_items.induct) (auto simp: plain_item_def quoted_def)

lemma header_lines:
  assumes "NL \<notin> set d" and "\<forall>g \<in> set gs. plain_item g"
  shows "split_lines (header_text d b gs) =
     [u ''description: '' @ quoted d,
      u ''alwaysApply: '' @ (if b then u ''true'' else u ''false''),
      u ''globs: ['' @ join_items gs @ u '']'']"
proof -
  let ?l1 = "u ''description: '' @ quoted d"
  let ?l2 = "u ''alwaysApply: '' @ (if b then u ''true'' else u ''false'')"
  let ?l3 = "u ''globs: ['' @ join_items gs @ u '']''"
  have n1: "NL \<notin> set ?l1" using assms(1) by (simp add: quoted_def)
  have n2: "NL \<notin> set ?l2" by simp
  have n3: "NL \<notin> set ?l3" using join_items_plain [OF assms(2)] by simp
  have "header_text d b gs = ?l1 @ NL # (?l2 @ NL # ?l3)"
    by (simp add: header_text_def)
  then show ?thesis
    by (simp only: split_lines_append split_lines_single [OF n1] split_lines_single [OF n2]
        split_lines_single [OF n3]) simp
qed

lemma header_match:
  assumes "NL \<notin> set d" and "\<forall>g \<in> set gs. plain_item g"
  shows "re_match frontmatter_re (rule_text d b gs body) =
         Some \<lparr>group1 = Some (header_text d b gs), after = body\<rparr>"
proof -
  have "u ''---'' \<notin> set (tl (split_lines (header_text d b gs)))"
    by (simp only: header_lines [OF assms]) simp
  from frontmatter_match_first [OF this, of body] show ?thesis
    by (simp only: rule_text_def)
qed

lemma header_description:
  "NL \<notin> set d \<Longrightarrow> parse_description (header_text d b gs) = PyStr d"
  using parse_description_quoted [of d] by (simp add: header_text_def)

lemma header_alwaysApply:
  "NL \<notin> set d \<Longrightarrow> parse_alwaysApply (header_text d b gs) = PyBool b"
  using parse_alwaysApply_header [of d b] by (simp add: header_text_def)

lemma header_globs:
  assumes "NL \<notin> set d" and "\<forall>g \<in> set gs. plain_item g"
  shows "parse_globs (header_text d b gs) = PyList gs"
proof -
  let ?l1 = "u ''description: '' @ quoted d"
  let ?l2 = "u ''alwaysApply: '' @ (if b then u ''true'' else u ''false'')"
  let ?pre = "?l1 @ NL # (?l2 @ NL # [])"
  have n1: "NL \<notin> set ?l1" using assms(1) by (simp add: quoted_def)
  have n2: "NL \<notin> set ?l2" by simp
  have sl: "split_lines ?pre = [?l1, ?l2, []]"
    by (simp only: split_lines_append split_lines_single [OF n1] split_lines_single [OF n2]) simp
  have k: "\<forall>l \<in> set (split_lines ?pre). \<not> startswith l (u ''globs:'')"
    by (simp only: sl) (simp add: startswith_def)
  have last: "?pre = [] \<or> last ?pre = NL" by simp
  have ws: "\<forall>c \<in> set [32]. isspace c" by (simp add: isspace_def)
  have body: "93 \<notin> set (join_items gs)" using join_items_plain [OF assms(2)] by simp
  have h: "header_text d b gs = ?pre @ u ''globs:'' @ [32] @ [91] @ join_items gs @ [93] @ []"
    by (simp add: header_text_def)
  have "parse_globs (header_text d b gs) =
      PyList (if strip (join_items gs) = [] then []
              else re_findall globs_item_re (strip (join_items gs)))"
    by (simp only: h) (rule parse_globs_bracketed [OF last k ws body])
  then show ?thesis
    using findall_items [OF assms(2), of None]
    by (simp add: strip_join_items join_items_Nil re_findall_def)
qed

lemma example_as_rule_text:
  "u ''---\<newline>description: \"Test rule\"\<newline>alwaysApply: true\<newline>globs: [\"*.ts\"]\<newline>---\<newline>Body text'' =
   rule_text (u ''Test rule'') True [u ''*.ts''] (u ''Body text'')"
  by (simp add: rule_text_def header_text_def quoted_def)

text \<open>
  The round trip on files laid out as the example of the specification: the header
  lines \<open>description: "D"\<close>, \<open>alwaysApply: true\<close> or \<open>false\<close>, \<open>globs: ["g1", ..., "gn"]\<close>,
  then the closing delimiter and any body.  Where \<open>D\<close> has no line break and is not
  blank and every glob is non-empty and holds no quote, no \<open>]\<close> and no line break,
  \<open>validate_file\<close> returns valid with the description, the flag and the list of globs
  as written, records no error and counts one more valid file.
\<close>

lemma plain_layout_round_trip:
  "(read_text fs p = Inr (rule_text d b gs body) \<and> NL \<notin> set d \<and> strip d \<noteq> []
      \<and> (\<forall>g \<in> set gs. plain_item g)
    \<longrightarrow> fst (validate_file fs p v) =
          (True, [''description'' \<mapsto> PyStr d, ''alwaysApply'' \<mapsto> PyBool b, ''globs'' \<mapsto> PyList gs])
      \<and> errors (snd (validate_file fs p v)) = errors v
      \<and> valid_files (stats (snd (validate_file fs p v))) = valid_files (stats v) + 1
      \<and> invalid_files (stats (snd (validate_file fs p v))) = invalid_files (stats v))
   \<and> (read_text fs p = Inr (u ''---\<newline>description: \"Test rule\"\<newline>alwaysApply: true\<newline>globs: [\"*.ts\"]\<newline>---\<newline>Body text'')
    \<longrightarrow> fst (validate_file fs p v) =
          (True, [''description'' \<mapsto> PyStr (u ''Test rule''), ''alwaysApply'' \<mapsto> PyBool True,
                  ''globs'' \<mapsto> PyList [u ''*.ts'']]))"
proof -
  have general: "fst (validate_file fs p v) =
          (True, [''description'' \<mapsto> PyStr d, ''alwaysApply'' \<mapsto> PyBool b, ''globs'' \<mapsto> PyList gs])
      \<and> errors (snd (validate_file fs p v)) = errors v
      \<and> valid_files (stats (snd (validate_file fs p v))) = valid_files (stats v) + 1
      \<and> invalid_files (stats (snd (validate_file fs p v))) = invalid_files (stats v)"
    if r: "read_text fs p = Inr (rule_text d b gs body)" and d: "NL \<notin> set d" "strip d \<noteq> []"
      and g: "\<forall>g \<in> set gs. plain_item g" for d b gs body
  proof -
    have s: "startswith (rule_text d b gs body) (u ''---'')"
      by (simp add: rule_text_def startswith_def)
    have nb: "\<not> blank (PyStr d)" using d(2) by (auto simp: strip_def)
    show ?thesis
      using nb
      by (simp add: validate_file_parsed [OF r s header_match [OF d(1) g]] Let_def
          group_1_def group_text_def header_description [OF d(1)] header_alwaysApply [OF d(1)]
          header_globs [OF d(1) g] parse_frontmatter_def del: blank.simps)
  qed
  have ex: "NL \<notin> set (u ''Test rule'')" "strip (u ''Test rule'') \<noteq> []"
    "\<forall>g \<in> set [u ''*.ts'']. plain_item g"
    by (simp_all add: strip_def isspace_def plain_item_def)
  have example: "fst (validate_file fs p v) =
          (True, [''description'' \<mapsto> PyStr (u ''Test rule''), ''alwaysApply'' \<mapsto> PyBool True,
                  ''globs'' \<mapsto> PyList [u ''*.ts'']])"
    if r: "read_text fs p = Inr (u ''---\<newline>description: \"Test rule\"\<newline>alwaysApply: true\<newline>globs: [\"*.ts\"]\<newline>---\<newline>Body text'')"
  proof -
    from r have "read_text fs p = Inr (rule_text (u ''Test rule'') True [u ''*.ts''] (u ''Body text''))"
      by (simp only: example_as_rule_text)
    from general [OF this ex] show ?thesis by blast
  qed
  from general example show ?thesis by blast
qed

lemma match_bracket_glob:
  "re_match frontmatter_re
     (u ''---\<newline>description: \"Test rule\"\<newline>alwaysApply: true\<newline>globs: [\"*.[ch]\"]\<newline>---\<newline>Body text'') =
   Some \<lparr>group1 = Some (u ''description: \"Test rule\"\<newline>alwaysApply: true\<newline>globs: [\"*.[ch]\"]''),
         after = u ''Body text''\<rparr>"
  by (simp add: eval_re eval_defs)

lemma parse_bracket_glob:
  "parse_description (u ''description: \"Test rule\"\<newline>alwaysApply: true\<newline>globs: [\"*.[ch]\"]'') =
     PyStr (u ''Test rule'')"
  "parse_alwaysApply (u ''description: \"Test rule\"\<newline>alwaysApply: true\<newline>globs: [\"*.[ch]\"]'') =
     PyBool True"
  "parse_globs (u ''description: \"Test rule\"\<newline>alwaysApply: true\<newline>globs: [\"*.[ch]\"]'') =
     PyList []"
  by (simp_all add: parse_description_def parse_alwaysApply_def parse_globs_def eval_re eval_defs)

lemma match_example:
  "re_match frontmatter_re
     (u ''---\<newline>description: \"Test rule\"\<newline>alwaysApply: true\<newline>globs: [\"*.ts\"]\<newline>---\<newline>Body text'') =
   Some \<lparr>group1 = Some (u ''description: \"Test rule\"\<newline>alwaysApply: true\<newline>globs: [\"*.ts\"]''),
         after = u ''Body text''\<rparr>"
  by (simp add: eval_re eval_defs)

lemma parse_example:
  "parse_description (u ''description: \"Test rule\"\<newline>alwaysApply: true\<newline>globs: [\"*.ts\"]'') =
     PyStr (u ''Test rule'')"
  "parse_alwaysApply (u ''description: \"Test rule\"\<newline>alwaysApply: true\<newline>globs: [\"*.ts\"]'') =
     PyBool True"
  "parse_globs (u ''description: \"Test rule\"\<newline>alwaysApply: true\<newline>globs: [\"*.ts\"]'') =
     PyList [u ''*.ts'']"
  by (simp_all add: parse_description_def parse_alwaysApply_def parse_globs_def eval_re eval_defs)

text \<open>
  The run over a rules directory that holds the example as \<open>rule.mdc\<close>: the status line
  shows the path of the file below \<open>rules_dir\<close>, and the description follows.
\<close>

lemma relative_to_found: "relative_to (d @ found) d = found"
  by (simp add: relative_to_def)

lemma validate_all_example:
  "snd (fst (validate_all
      (one_file (u ''---\<newline>description: \"Test rule\"\<newline>alwaysApply: true\<newline>globs: [\"*.ts\"]\<newline>---\<newline>Body text''))
      (init [u ''.cursor'', u ''rules'']))) =
   [Announce 1, FileStatus True [u ''rule.mdc''], FileDescription (u ''Test rule'')]"
proof -
  let ?E = "u ''---\<newline>description: \"Test rule\"\<newline>alwaysApply: true\<newline>globs: [\"*.ts\"]\<newline>---\<newline>Body text''"
  let ?p = "[u ''.cursor'', u ''rules'', u ''rule.mdc'']"
  have r: "read_text (one_file ?E) ?p = Inr ?E"
    by (simp add: one_file_def)
  have s: "startswith ?E (u ''---'')"
    by (simp add: startswith_def)
  have d: "rglob_mdc (one_file ?E) = [[u ''rule.mdc'']]" "dir_exists (one_file ?E)"
    by (simp_all add: one_file_def)
  show ?thesis
    using d parse_example
      validate_file_parsed [OF r s match_example, of "init [u ''.cursor'', u ''rules'']"]
    by (simp add: validate_all_def Let_def parse_frontmatter_def group_1_def group_text_def
        strip_def isspace_def init_def file_lines_def relative_to_def)
qed

text \<open>
  Claim C1, where the code departs from it.  The example of the specification is a
  valid file and its description, flag and list of globs are read back as written.
  The same file with the glob \<open>*.[ch]\<close> in place of \<open>*.ts\<close> conforms to the schema as
  well: its \<open>globs\<close> value is a single-line bracketed list of one quoted string.
  \<open>validate_file\<close> returns valid for it and records nothing, but the list read back is
  empty, not the list of the one glob: the pattern of line 76 ends the list at the
  first \<open>]\<close>, which stands inside the quoted item, and line 81 then finds no complete
  quoted item.
\<close>

theorem bracket_in_glob_item_lost:
  "validate_file
     (one_file (u ''---\<newline>description: \"Test rule\"\<newline>alwaysApply: true\<newline>globs: [\"*.ts\"]\<newline>---\<newline>Body text''))
     rule_mdc (init []) =
   ((True, [''description'' \<mapsto> PyStr (u ''Test rule''), ''alwaysApply'' \<mapsto> PyBool True,
            ''globs'' \<mapsto> PyList [u ''*.ts'']]),
    \<lparr>rules_dir = [], errors = [], warnings = [],
     stats = \<lparr>total_files = 1, valid_files = 1, invalid_files = 0,
              files_without_description = 0, files_without_alwaysApply = 0,
              files_with_invalid_yaml = 0\<rparr>\<rparr>)
   \<and> validate_file
     (one_file (u ''---\<newline>description: \"Test rule\"\<newline>alwaysApply: true\<newline>globs: [\"*.[ch]\"]\<newline>---\<newline>Body text''))
     rule_mdc (init []) =
   ((True, [''description'' \<mapsto> PyStr (u ''Test rule''), ''alwaysApply'' \<mapsto> PyBool True,
            ''globs'' \<mapsto> PyList []]),
    \<lparr>rules_dir = [], errors = [], warnings = [],
     stats = \<lparr>total_files = 1, valid_files = 1, invalid_files = 0,
              files_without_description = 0, files_without_alwaysApply = 0,
              files_with_invalid_yaml = 0\<rparr>\<rparr>)
   \<and> PyList [] \<noteq> PyList [u ''*.[ch]'']"
proof -
  let ?E = "u ''---\<newline>description: \"Test rule\"\<newline>alwaysApply: true\<newline>globs: [\"*.ts\"]\<newline>---\<newline>Body text''"
  let ?C = "u ''---\<newline>description: \"Test rule\"\<newline>alwaysApply: true\<newline>globs: [\"*.[ch]\"]\<newline>---\<newline>Body text''"
  have re: "read_text (one_file ?E) rule_mdc = Inr ?E" and rc: "read_text (one_file ?C) rule_mdc = Inr ?C"
    by (simp_all add: one_file_def)
  have se: "startswith ?E (u ''---'')" and sc: "startswith ?C (u ''---'')"
    by (simp_all add: startswith_def)
  have e: "validate_file (one_file ?E) rule_mdc (init []) =
   ((True, [''description'' \<mapsto> PyStr (u ''Test rule''), ''alwaysApply'' \<mapsto> PyBool True,
            ''globs'' \<mapsto> PyList [u ''*.ts'']]),
    \<lparr>rules_dir = [], errors = [], warnings = [],
     stats = \<lparr>total_files = 1, valid_files = 1, invalid_files = 0,
              files_without_description = 0, files_without_alwaysApply = 0,
              files_with_invalid_yaml = 0\<rparr>\<rparr>)"
    using parse_example validate_file_parsed [OF re se match_example, of "init []"]
    by (simp add: Let_def parse_frontmatter_def group_1_def group_text_def strip_def isspace_def
        init_def)
  have c: "validate_file (one_file ?C) rule_mdc (init []) =
   ((True, [''description'' \<mapsto> PyStr (u ''Test rule''), ''alwaysApply'' \<mapsto> PyBool True,
            ''globs'' \<mapsto> PyList []]),
    \<lparr>rules_dir = [], errors = [], warnings = [],
     stats = \<lparr>total_files = 1, valid_files = 1, invalid_files = 0,
              files_without_description = 0, files_without_alwaysApply = 0,
              files_with_invalid_yaml = 0\<rparr>\<rparr>)"
    using parse_bracket_glob validate_file_parsed [OF rc sc match_bracket_glob, of "init []"]
    by (simp add: Let_def parse_frontmatter_def group_1_def group_text_def strip_def isspace_def
        init_def)
  have n: "PyList [] \<noteq> PyList [u ''*.[ch]'']" by simp
  from e c n show ?thesis by (simp only: simp_thms)
qed

end
